theory Spec2Isabelle
  imports Main "HOL-Library.Word" "HOL-Library.Multiset"
begin

section \<open>JavaScript strings\<close>

text \<open>
  A JavaScript string is a sequence of 16-bit code units. The string methods and the
  regular expression of \<open>compareVersions\<close> work on code units (the expression has no
  \<open>u\<close> flag), so a string is a list of 16-bit words; \<open>js\<close> reads an ASCII literal.

  \<open>isWhiteSpace\<close> is the set that \<open>String.prototype.trim\<close>, the class \<open>\s\<close> and
  the prefix skipped by \<open>parseInt\<close> share: the WhiteSpace and LineTerminator code
  points of ECMAScript. The dot of a regular expression matches every code unit that
  is not a line terminator; \<open>\d\<close> is the ASCII digits.
\<close>

type_synonym jschar = "16 word"
type_synonym jsstring = "jschar list"

definition js :: "string \<Rightarrow> jsstring" where
  "js s = map of_char s"

definition isLineTerminator :: "jschar \<Rightarrow> bool" where
  "isLineTerminator c = (c = 0x0A \<or> c = 0x0D \<or> c = 0x2028 \<or> c = 0x2029)"

definition isWhiteSpace :: "jschar \<Rightarrow> bool" where
  "isWhiteSpace c =
     (c = 0x09 \<or> c = 0x0B \<or> c = 0x0C \<or> c = 0x20 \<or> c = 0xA0 \<or> c = 0x1680 \<or>
      (0x2000 \<le> c \<and> c \<le> 0x200A) \<or> c = 0x202F \<or> c = 0x205F \<or> c = 0x3000 \<or>
      c = 0xFEFF \<or> isLineTerminator c)"

definition isDigit :: "jschar \<Rightarrow> bool" where
  "isDigit c = (0x30 \<le> c \<and> c \<le> 0x39)"

definition trim :: "jsstring \<Rightarrow> jsstring" where
  "trim s = rev (dropWhile isWhiteSpace (rev (dropWhile isWhiteSpace s)))"

text \<open>
  \<open>s.split(d)\<close> for a one-unit separator: the pieces between the separators, empty
  pieces kept; the empty string splits into one empty piece. The \<open>[]\<close> branch of the
  inner case is never taken (the result of a split has at least one piece).
\<close>

fun split_str :: "jschar \<Rightarrow> jsstring \<Rightarrow> jsstring list" where
  "split_str d [] = [[]]"
| "split_str d (c # cs) =
     (if c = d then [] # split_str d cs
      else (case split_str d cs of
              [] \<Rightarrow> [[c]]
            | seg # segs \<Rightarrow> (c # seg) # segs))"

text \<open>
  \<open>x || null\<close> on a value that is a string, \<open>null\<close> or \<open>undefined\<close>: the empty
  string is falsy, as the two absent values are. \<open>!x\<close> is \<open>truthy x = None\<close>.
\<close>

definition truthy :: "jsstring option \<Rightarrow> jsstring option" where
  "truthy x = (case x of None \<Rightarrow> None | Some s \<Rightarrow> if s = [] then None else Some s)"

section \<open>The version comparator\<close>

text \<open>
  \<open>parseInt(p, 10)\<close>: skip leading white space, read one optional sign, then the
  longest run of decimal digits; \<open>None\<close> is NaN (no digit there). The value is kept as
  an exact integer: JavaScript rounds a digit run beyond \<open>2^53\<close> to the nearest double,
  which this model does not do.
\<close>

definition digitsValue :: "jsstring \<Rightarrow> int" where
  "digitsValue ds = foldl (\<lambda>acc c. 10 * acc + (uint c - 48)) 0 ds"

definition parseInt :: "jsstring \<Rightarrow> int option" where
  "parseInt s =
     (let t = dropWhile isWhiteSpace s;
          neg = (case t of [] \<Rightarrow> False | c # _ \<Rightarrow> c = 0x2D);
          u = (case t of [] \<Rightarrow> [] | c # r \<Rightarrow> if c = 0x2D \<or> c = 0x2B then r else t);
          ds = takeWhile isDigit u
      in if ds = [] then None
         else Some (if neg then - digitsValue ds else digitsValue ds))"

text \<open>
  The match of \<open>/^(.+?)\s*\((\d+)\)$/\<close>, as the backtracking matcher finds it.
  \<open>match_tail r\<close> matches \<open>\s*\((\d+)\)$\<close> against the whole rest \<open>r\<close> and yields
  group 2: the greedy \<open>\s*\<close> and \<open>\d+\<close> take every unit of their class, since the
  unit that must follow each (an opening, a closing parenthesis) is not in the class.
  \<open>match_lazy pre rest\<close> is the lazy \<open>.+?\<close> having consumed the non-empty \<open>pre\<close>:
  it tries the tail first and takes one more unit only when the tail fails.
\<close>

definition match_tail :: "jsstring \<Rightarrow> jsstring option" where
  "match_tail r =
     (case dropWhile isWhiteSpace r of
        [] \<Rightarrow> None
      | c # t \<Rightarrow>
          if c = 0x28 \<and> takeWhile isDigit t \<noteq> [] \<and> dropWhile isDigit t = [0x29]
          then Some (takeWhile isDigit t) else None)"

fun match_lazy :: "jsstring \<Rightarrow> jsstring \<Rightarrow> (jsstring \<times> jsstring) option" where
  "match_lazy pre [] = None"
| "match_lazy pre (c # cs) =
     (case match_tail (c # cs) of
        Some ds \<Rightarrow> Some (pre, ds)
      | None \<Rightarrow> if isLineTerminator c then None else match_lazy (pre @ [c]) cs)"

definition version_match :: "jsstring \<Rightarrow> (jsstring \<times> jsstring) option" where
  "version_match v =
     (case v of
        [] \<Rightarrow> None
      | c # cs \<Rightarrow> if isLineTerminator c then None else match_lazy [c] cs)"

text \<open>\<open>n || 0\<close> on a number that may be NaN or, read out of range, \<open>undefined\<close>.\<close>

fun or0 :: "int option \<Rightarrow> int" where
  "or0 None = 0"
| "or0 (Some n) = (if n = 0 then 0 else n)"

record parsed =
  parts :: "int list"
  build :: int

text \<open>
  The inner function \<open>parse\<close>. \<open>main_build\<close> is the pair \<open>(main, build)\<close> after the
  \<open>if (m)\<close> block; \<open>segment\<close> is the function mapped over the split.
  No operation of the \<open>try\<close> block throws on strings, so the lexical fallback of the
  \<open>catch\<close> block is not reached and has no branch here.
\<close>

definition main_build :: "jsstring \<Rightarrow> jsstring \<times> int" where
  "main_build v =
     (case version_match v of
        None \<Rightarrow> (v, 0)
      | Some (g1, g2) \<Rightarrow> (trim g1, or0 (parseInt g2)))"

definition segment :: "jsstring \<Rightarrow> int" where
  "segment p = (case parseInt p of None \<Rightarrow> 0 | Some n \<Rightarrow> n)"

definition parse :: "jsstring \<Rightarrow> parsed" where
  "parse v0 =
     (let v = trim v0;
          (main, b) = main_build v
      in \<lparr>parts = map segment (split_str 0x2E main), build = b\<rparr>)"

text \<open>\<open>a.parts[i]\<close>, which is \<open>undefined\<close> beyond the end of the array.\<close>

definition part_at :: "int list \<Rightarrow> nat \<Rightarrow> int option" where
  "part_at xs i = (if i < length xs then Some (xs ! i) else None)"

text \<open>The \<open>for\<close> loop of \<open>compareVersions\<close>: \<open>Some r\<close> when it returns \<open>r\<close>.\<close>

function cmp_parts :: "int list \<Rightarrow> int list \<Rightarrow> nat \<Rightarrow> nat \<Rightarrow> int option" where
  "cmp_parts a b len i =
     (if i < len then
        (let x = or0 (part_at a i); y = or0 (part_at b i)
         in if x > y then Some 1
            else if x < y then Some (- 1)
            else cmp_parts a b len (Suc i))
      else None)"
  by pat_completeness auto
termination
  by (relation "measure (\<lambda>(a, b, len, i). len - i)") auto

declare cmp_parts.simps [simp del]

definition compareVersions :: "jsstring \<Rightarrow> jsstring \<Rightarrow> int" where
  "compareVersions v1 v2 =
     (let a = parse v1; b = parse v2;
          len = max (length (parts a)) (length (parts b))
      in case cmp_parts (parts a) (parts b) len 0 of
           Some r \<Rightarrow> r
         | None \<Rightarrow>
             if build a > build b then 1
             else if build a < build b then - 1
             else 0)"

text \<open>
  The segments of the dotted main part of a version string, \<open>main.split('.')\<close>, and
  the segments on which the numeric parse finds no number: after the white space and
  one optional sign, no decimal digit follows.
\<close>

definition segments :: "jsstring \<Rightarrow> jsstring list" where
  "segments v0 = split_str 0x2E (fst (main_build (trim v0)))"

definition nonNumeric :: "jsstring \<Rightarrow> bool" where
  "nonNumeric p =
     (case dropWhile isWhiteSpace p of
        [] \<Rightarrow> True
      | c # r \<Rightarrow>
          if c = 0x2D \<or> c = 0x2B then (case r of [] \<Rightarrow> True | d # _ \<Rightarrow> \<not> isDigit d)
          else \<not> isDigit c)"

section \<open>Data of the monitor\<close>

text \<open>
  \<open>appInfo\<close> is the first entry of the \<open>results\<close> array of a lookup reply, with the
  four fields \<open>checkAppUpdate\<close> reads; \<open>releaseNotes\<close> may be absent. \<open>appRecord\<close> is
  the object stored for an id in \<open>monitoredData\<close>, and \<open>monitoredData\<close> a finite table
  from ids to records (own properties only). The fields are typed as strings, as the
  data model of the specification has them.
\<close>

record appInfo =
  trackName :: jsstring
  version :: jsstring
  releaseNotes :: "jsstring option"
  currentVersionReleaseDate :: jsstring

record appRecord =
  version :: jsstring
  region :: jsstring
  name :: jsstring

type_synonym monitored = "jsstring \<rightharpoonup> appRecord"

text \<open>
  The four log buckets. An entry carries the values its message interpolates, not the
  rendered text; the two messages of the \<open>noUpdate\<close> bucket are two constructors.
  Regions appear in the messages in upper case.
\<close>

datatype log_entry =
    LogInitial jsstring jsstring jsstring jsstring
      \<comment> \<open>region, name, id, new version\<close>
  | LogUpdated jsstring jsstring jsstring jsstring jsstring
      \<comment> \<open>region, name, id, stored version, new version\<close>
  | LogLower jsstring jsstring jsstring jsstring jsstring
      \<comment> \<open>region, name, id, new version, stored version: "lower than the recorded version"\<close>
  | LogLatest jsstring jsstring jsstring jsstring
      \<comment> \<open>region, name, id, new version: "already the latest version"\<close>
  | LogNotFound jsstring "jsstring list"
      \<comment> \<open>id, the regions joined into the message\<close>

record log_buckets =
  initial :: "log_entry list"
  updated :: "log_entry list"
  noUpdate :: "log_entry list"
  notFound :: "log_entry list"

text \<open>
  A call of \<open>$notification.post(title, subtitle, body, {openUrl})\<close>. Each of the three
  texts is one of the templates of the source with the values it interpolates; the
  release date is carried as received (the source renders it for the locale), and a
  missing or empty \<open>releaseNotes\<close> is \<open>None\<close>, which the source renders as a fixed
  placeholder.
\<close>

datatype title_text =
    TitleUnconfigured
  | TitleAdded jsstring \<comment> \<open>name: "added to monitoring"\<close>
  | TitleUpdated jsstring \<comment> \<open>name: "has an update"\<close>

datatype subtitle_text =
    SubtitleEmpty
  | SubtitleCurrent jsstring jsstring \<comment> \<open>region, current version\<close>
  | SubtitleChange jsstring jsstring jsstring \<comment> \<open>region, stored version, new version\<close>

datatype body_text =
    BodyUnconfigured
  | BodyAdded jsstring \<comment> \<open>release date\<close>
  | BodyUpdated jsstring "jsstring option" \<comment> \<open>release date, release notes\<close>

record notification =
  title :: title_text
  subtitle :: subtitle_text
  body :: body_text
  openUrl :: "jsstring option"

section \<open>The host platform\<close>

text \<open>
  What the script does not define is a parameter. \<open>httpGet\<close> gives, for a URL, the three
  arguments the callback of \<open>$httpClient.get\<close> receives: whether \<open>error\<close> is set, the
  status of the response (\<open>None\<close> when there is no response or no status) and the data.
  \<open>parseLookup\<close> is \<open>JSON.parse\<close> on a reply, read as far as line 246 reads it;
  \<open>None\<close> stands for any exception of that \<open>try\<close> block. \<open>parseMonitored\<close> is
  \<open>JSON.parse\<close> on the stored blob, \<open>None\<close> when it throws; a blob that parses is
  taken to hold a table of records, which is what the script writes. \<open>stringify\<close> is
  \<open>JSON.stringify\<close> on the table. \<open>toLowerCase\<close> is the Unicode case mapping.
  \<open>arrival\<close> is the order in which the host delivers the replies to the requests that
  are in flight: at its \<open>n\<close>-th delivery, with \<open>m\<close> requests in flight, it runs the
  callback of the request at position \<open>arrival n mod m\<close>.
\<close>

record http_reply =
  error :: bool
  status :: "int option"
  data :: jsstring

record lookup_json =
  resultCount :: int
  results :: "appInfo list"

record platform =
  httpGet :: "jsstring \<Rightarrow> http_reply"
  parseLookup :: "jsstring \<Rightarrow> lookup_json option"
  parseMonitored :: "jsstring \<Rightarrow> monitored option"
  stringify :: "monitored \<Rightarrow> jsstring"
  toLowerCase :: "jsstring \<Rightarrow> jsstring"
  arrival :: "nat \<Rightarrow> nat"

text \<open>
  The state a run acts on: the persistent store, the notifications posted and the
  URLs requested so far (in order), whether \<open>$done\<close> was called, and the two objects of
  \<open>main\<close> that the tasks share, \<open>monitoredData\<close> and \<open>logs\<close>. Console output is not
  part of the state.
\<close>

record state =
  store :: "jsstring \<rightharpoonup> jsstring"
  posted :: "notification list"
  requests :: "jsstring list"
  finished :: bool
  monitoredData :: monitored
  logs :: log_buckets

definition APP_IDS_KEY :: jsstring where
  "APP_IDS_KEY = js ''AppStore_AppID''"

definition REGIONS_KEY :: jsstring where
  "REGIONS_KEY = js ''AppStore_Region''"

definition MONITORED_APPS_KEY :: jsstring where
  "MONITORED_APPS_KEY = js ''AppStore_Monitored_Apps''"

section \<open>Region resolution\<close>

definition lookupUrl :: "jsstring \<Rightarrow> jsstring \<Rightarrow> jsstring" where
  "lookupUrl reg appId =
     js ''https://itunes.apple.com/'' @ reg @ js ''/lookup?id='' @ appId"

text \<open>
  The value the promise of \<open>lookupApp\<close> resolves to; \<open>None\<close> is \<open>null\<close> or
  \<open>undefined\<close>. The parameter \<open>reg\<close> is the \<open>region\<close> of the source. The reply to
  a URL does not change during a run.
\<close>

definition lookupResult :: "platform \<Rightarrow> jsstring \<Rightarrow> jsstring \<Rightarrow> appInfo option" where
  "lookupResult P reg appId =
     (let reply = httpGet P (lookupUrl reg appId)
      in if error reply \<or> status reply \<noteq> Some 200 then None
         else (case parseLookup P (data reply) of
                 None \<Rightarrow> None
               | Some json \<Rightarrow>
                   if resultCount json > 0
                   then (case results json of [] \<Rightarrow> None | r # _ \<Rightarrow> Some r)
                   else None))"

definition lookupApp :: "platform \<Rightarrow> jsstring \<Rightarrow> jsstring \<Rightarrow> state \<Rightarrow> appInfo option \<times> state" where
  "lookupApp P reg appId s =
     (lookupResult P reg appId, s\<lparr>requests := requests s @ [lookupUrl reg appId]\<rparr>)"

text \<open>
  The \<open>for\<close> loop of \<open>checkAppUpdate\<close> over \<open>searchOrder\<close>: the pair
  \<open>(appInfo, regionUsed)\<close> at the \<open>break\<close>, or \<open>None\<close> when the loop runs out.
\<close>

fun probe_regions ::
  "platform \<Rightarrow> jsstring \<Rightarrow> jsstring list \<Rightarrow> state \<Rightarrow> (appInfo \<times> jsstring) option \<times> state" where
  "probe_regions P appId [] s = (None, s)"
| "probe_regions P appId (reg # rest) s =
     (case lookupApp P reg appId s of
        (Some appInfo, s') \<Rightarrow> (Some (appInfo, reg), s')
      | (None, s') \<Rightarrow> probe_regions P appId rest s')"

section \<open>Classification\<close>

text \<open>\<open>monitoredData[appId]?.version || null\<close>.\<close>

definition storedVersion :: "monitored \<Rightarrow> jsstring \<Rightarrow> jsstring option" where
  "storedVersion m appId =
     truthy (case m appId of None \<Rightarrow> None | Some r \<Rightarrow> Some (version r))"

definition push_initial :: "log_entry \<Rightarrow> state \<Rightarrow> state" where
  "push_initial e s = s\<lparr>logs := (logs s)\<lparr>initial := initial (logs s) @ [e]\<rparr>\<rparr>"

definition push_updated :: "log_entry \<Rightarrow> state \<Rightarrow> state" where
  "push_updated e s = s\<lparr>logs := (logs s)\<lparr>updated := updated (logs s) @ [e]\<rparr>\<rparr>"

definition push_noUpdate :: "log_entry \<Rightarrow> state \<Rightarrow> state" where
  "push_noUpdate e s = s\<lparr>logs := (logs s)\<lparr>noUpdate := noUpdate (logs s) @ [e]\<rparr>\<rparr>"

definition push_notFound :: "log_entry \<Rightarrow> state \<Rightarrow> state" where
  "push_notFound e s = s\<lparr>logs := (logs s)\<lparr>notFound := notFound (logs s) @ [e]\<rparr>\<rparr>"

definition openUrlOf :: "jsstring \<Rightarrow> jsstring \<Rightarrow> jsstring" where
  "openUrlOf regionUsed appId =
     js ''https://apps.apple.com/'' @ regionUsed @ js ''/app/id'' @ appId"

text \<open>The notification composed at lines 201 to 219, by whether a version was stored.\<close>

definition compose :: "jsstring \<Rightarrow> appInfo \<Rightarrow> jsstring \<Rightarrow> jsstring option \<Rightarrow> notification" where
  "compose appId appInfo regionUsed stored =
     (case stored of
        Some sv \<Rightarrow>
          \<lparr>title = TitleUpdated (trackName appInfo),
           subtitle = SubtitleChange regionUsed sv (appInfo.version appInfo),
           body = BodyUpdated (currentVersionReleaseDate appInfo) (truthy (releaseNotes appInfo)),
           openUrl = Some (openUrlOf regionUsed appId)\<rparr>
      | None \<Rightarrow>
          \<lparr>title = TitleAdded (trackName appInfo),
           subtitle = SubtitleCurrent regionUsed (appInfo.version appInfo),
           body = BodyAdded (currentVersionReleaseDate appInfo),
           openUrl = Some (openUrlOf regionUsed appId)\<rparr>)"

text \<open>
  \<open>classify\<close> is \<open>checkAppUpdate\<close> from line 166 on, once a region has answered:
  first the log entry (lines 172 to 191), then the write and the notification
  (lines 194 to 221), or the fallback write of lines 222 to 228.
\<close>

definition classify :: "jsstring \<Rightarrow> appInfo \<Rightarrow> jsstring \<Rightarrow> state \<Rightarrow> state" where
  "classify appId appInfo regionUsed s =
     (let appName = trackName appInfo;
          newVersion = appInfo.version appInfo;
          stored = storedVersion (monitoredData s) appId;
          s1 = (case stored of
                  None \<Rightarrow> push_initial (LogInitial regionUsed appName appId newVersion) s
                | Some sv \<Rightarrow>
                    (let cmp = compareVersions newVersion sv
                     in if cmp > 0
                        then push_updated (LogUpdated regionUsed appName appId sv newVersion) s
                        else if cmp < 0
                        then push_noUpdate (LogLower regionUsed appName appId newVersion sv) s
                        else push_noUpdate (LogLatest regionUsed appName appId newVersion) s));
          entry = \<lparr>version = newVersion, region = regionUsed, name = appName\<rparr>
      in if (case stored of None \<Rightarrow> True | Some sv \<Rightarrow> compareVersions newVersion sv > 0)
         then s1\<lparr>monitoredData := (monitoredData s1)(appId \<mapsto> entry),
                 posted := posted s1 @ [compose appId appInfo regionUsed stored]\<rparr>
         else if monitoredData s1 appId = None
         then s1\<lparr>monitoredData := (monitoredData s1)(appId \<mapsto> entry)\<rparr>
         else s1)"

definition checkAppUpdate :: "platform \<Rightarrow> jsstring \<Rightarrow> jsstring list \<Rightarrow> state \<Rightarrow> state" where
  "checkAppUpdate P appId regions s =
     (case probe_regions P appId regions s of
        (None, s') \<Rightarrow> push_notFound (LogNotFound appId regions) s'
      | (Some (appInfo, regionUsed), s') \<Rightarrow> classify appId appInfo regionUsed s')"

section \<open>The run\<close>

definition handleDeletions :: "jsstring list \<Rightarrow> monitored \<Rightarrow> monitored" where
  "handleDeletions newIds m = (\<lambda>k. if k \<in> set newIds then m k else None)"

definition defaultRegions :: "jsstring list" where
  "defaultRegions =
     [js ''us'', js ''cn'', js ''hk'', js ''mo'', js ''tw'', js ''jp'', js ''kr'', js ''sg'',
      js ''tr'']"

text \<open>Line 38: the tracked ids, split at commas, trimmed, empty entries dropped.\<close>

definition newIdsOf :: "jsstring option \<Rightarrow> jsstring list" where
  "newIdsOf appStoreIds =
     (case truthy appStoreIds of
        None \<Rightarrow> []
      | Some ids \<Rightarrow> filter (\<lambda>x. x \<noteq> []) (map trim (split_str 0x2C ids)))"

text \<open>Lines 66 to 80: the region order.\<close>

definition regionsOf :: "platform \<Rightarrow> jsstring option \<Rightarrow> jsstring list" where
  "regionsOf P customRegionsRaw =
     (case truthy customRegionsRaw of
        None \<Rightarrow> defaultRegions
      | Some raw \<Rightarrow>
          (let customRegions =
                 filter (\<lambda>r. r \<noteq> []) (map (\<lambda>r. toLowerCase P (trim r)) (split_str 0x2C raw))
           in if length customRegions > 0 then customRegions else defaultRegions))"

text \<open>Lines 52 to 60: the table read from the stored blob.\<close>

definition loadMonitored :: "platform \<Rightarrow> jsstring option \<Rightarrow> monitored" where
  "loadMonitored P storedData =
     (case truthy storedData of
        None \<Rightarrow> Map.empty
      | Some blob \<Rightarrow> (case parseMonitored P blob of None \<Rightarrow> Map.empty | Some m \<Rightarrow> m))"

definition emptyLogs :: log_buckets where
  "emptyLogs = \<lparr>initial = [], updated = [], noUpdate = [], notFound = []\<rparr>"

definition unconfiguredNotice :: notification where
  "unconfiguredNotice =
     \<lparr>title = TitleUnconfigured, subtitle = SubtitleEmpty, body = BodyUnconfigured,
      openUrl = None\<rparr>"

text \<open>
  \<open>Promise.all\<close> over \<open>newIds.map(id => checkAppUpdate(...))\<close>. The call of \<open>map\<close>
  starts one task for each element of \<open>newIds\<close>, in the order of the list, and each
  task runs up to its first \<open>await\<close>: it has issued the request for the first region
  (\<open>launch\<close>; with no region at all it logs not-found at once). A task then waits for
  the reply to its request. The host runs one callback at a time: when the reply of
  a task is delivered, the task runs on to its next \<open>await\<close> or to its end
  (\<open>resume\<close>): an answer is classified, a miss issues the request for the next
  region, or logs not-found when no region is left. So the tasks interleave at their
  requests, in the order \<open>arrival\<close> of the deliveries, and what a task does between
  two requests is one step. \<open>settle\<close> delivers replies until no task is waiting;
  every request is answered. No task of the model throws, so the \<open>catch\<close> block of
  \<open>main\<close> has no branch. \<open>checkAppUpdate\<close> above is one task with its steps taken
  in one go.

  A task that waits: its id, the region of its request in flight, and the regions it
  has not tried yet.
\<close>

record task =
  taskId :: jsstring
  probing :: jsstring
  remaining :: "jsstring list"

definition launch :: "jsstring list \<Rightarrow> state \<times> task list \<Rightarrow> jsstring \<Rightarrow> state \<times> task list" where
  "launch regions started appId =
     (case regions of
        [] \<Rightarrow> (push_notFound (LogNotFound appId regions) (fst started), snd started)
      | reg # rest \<Rightarrow>
          ((fst started)\<lparr>requests := requests (fst started) @ [lookupUrl reg appId]\<rparr>,
           snd started @ [\<lparr>taskId = appId, probing = reg, remaining = rest\<rparr>]))"

definition resume :: "platform \<Rightarrow> jsstring list \<Rightarrow> task \<Rightarrow> state \<Rightarrow> state \<times> task option" where
  "resume P regions t s =
     (case lookupResult P (probing t) (taskId t) of
        Some appInfo \<Rightarrow> (classify (taskId t) appInfo (probing t) s, None)
      | None \<Rightarrow>
          (case remaining t of
             [] \<Rightarrow> (push_notFound (LogNotFound (taskId t) regions) s, None)
           | reg # rest \<Rightarrow>
               (s\<lparr>requests := requests s @ [lookupUrl reg (taskId t)]\<rparr>,
                Some (t\<lparr>probing := reg, remaining := rest\<rparr>))))"

text \<open>The waiting tasks after the task at position \<open>k\<close> has run one step.\<close>

definition afterStep :: "task list \<Rightarrow> nat \<Rightarrow> task option \<Rightarrow> task list" where
  "afterStep pending k cont =
     take k pending @ (case cont of None \<Rightarrow> [] | Some t \<Rightarrow> [t]) @ drop (Suc k) pending"

text \<open>
  An upper bound on the steps the waiting tasks can still take; every step lowers it,
  so \<open>settle\<close> ends.
\<close>

definition weight :: "task list \<Rightarrow> nat" where
  "weight pending = sum_list (map (\<lambda>t. Suc (length (remaining t))) pending)"

function settle :: "platform \<Rightarrow> jsstring list \<Rightarrow> nat \<Rightarrow> task list \<Rightarrow> state \<Rightarrow> state" where
  "settle P regions n pending s =
     (if pending = [] then s
      else (let k = arrival P n mod length pending;
                step = resume P regions (pending ! k) s
            in settle P regions (Suc n) (afterStep pending k (snd step)) (fst step)))"
  by pat_completeness auto
termination
proof (relation "measure (\<lambda>(P, regions, n, pending, s). weight pending)")
  show "wf (measure (\<lambda>(P, regions, n, pending, s). weight pending))" by simp
next
  fix P :: platform and regions :: "jsstring list" and n :: nat and pending :: "task list"
    and s :: state and k :: nat and step :: "state \<times> task option"
  assume ne: "pending \<noteq> []" and k: "k = arrival P n mod length pending"
    and step: "step = resume P regions (pending ! k) s"
  from ne k have lt: "k < length pending" by simp
  have mid: "weight (case snd step of None \<Rightarrow> [] | Some t \<Rightarrow> [t]) < weight [pending ! k]"
    by (simp add: step resume_def weight_def split: option.splits list.splits)
  have "pending = take k pending @ [pending ! k] @ drop (Suc k) pending"
    using lt by (simp add: id_take_nth_drop [symmetric])
  then have "weight pending =
      weight (take k pending) + weight [pending ! k] + weight (drop (Suc k) pending)"
    by (metis (no_types, lifting) add.assoc map_append sum_list_append weight_def)
  moreover have "weight (afterStep pending k (snd step)) =
      weight (take k pending) + weight (case snd step of None \<Rightarrow> [] | Some t \<Rightarrow> [t]) +
      weight (drop (Suc k) pending)"
    by (simp add: afterStep_def weight_def)
  ultimately have "weight (afterStep pending k (snd step)) < weight pending"
    using mid by simp
  then show "((P, regions, Suc n, afterStep pending k (snd step), fst step),
              P, regions, n, pending, s)
             \<in> measure (\<lambda>(P, regions, n, pending, s). weight pending)"
    by simp
qed

declare settle.simps [simp del]

definition runTasks :: "platform \<Rightarrow> jsstring list \<Rightarrow> jsstring list \<Rightarrow> state \<Rightarrow> state" where
  "runTasks P regions newIds s =
     (let started = foldl (launch regions) (s, []) newIds
      in settle P regions 0 (snd started) (fst started))"

definition main :: "platform \<Rightarrow> state \<Rightarrow> state" where
  "main P s =
     (let appStoreIds = store s APP_IDS_KEY;
          storedData = store s MONITORED_APPS_KEY
      in if truthy appStoreIds = None \<and>
            (truthy storedData = None \<or> storedData = Some (js ''{}'') \<or> storedData = Some [])
         then s\<lparr>posted := posted s @ [unconfiguredNotice], finished := True\<rparr>
         else
           (let newIds = newIdsOf appStoreIds
            in if length newIds = 0
               then (if truthy storedData \<noteq> None \<and> storedData \<noteq> Some (js ''{}'') \<and>
                        storedData \<noteq> Some []
                     then s\<lparr>store := (store s)(MONITORED_APPS_KEY \<mapsto> []), finished := True\<rparr>
                     else s\<lparr>finished := True\<rparr>)
               else
                 (let s1 = s\<lparr>monitoredData := handleDeletions newIds (loadMonitored P storedData),
                              logs := emptyLogs\<rparr>;
                      regions = regionsOf P (store s REGIONS_KEY);
                      s2 = runTasks P regions newIds s1
                  in s2\<lparr>store := (store s2)(MONITORED_APPS_KEY \<mapsto> stringify P (monitoredData s2)),
                         finished := True\<rparr>)))"

text \<open>
  The readings of the specification's words about the stored blob: it is "absent,
  empty or blank" when the key has no value, or its value is the text of the empty
  table \<open>{}\<close>, or the empty string.
\<close>

definition storedIsEmpty :: "jsstring option \<Rightarrow> bool" where
  "storedIsEmpty storedData =
     (storedData = None \<or> storedData = Some (js ''{}'') \<or> storedData = Some [])"

section \<open>Notions of the specification\<close>

text \<open>
  A region probe fails by a transport error, a status other than 200, a payload that
  does not parse, or a payload with no result.
\<close>

definition probeFails :: "platform \<Rightarrow> jsstring \<Rightarrow> jsstring \<Rightarrow> bool" where
  "probeFails P reg appId =
     (let reply = httpGet P (lookupUrl reg appId)
      in error reply \<or> status reply \<noteq> Some 200 \<or>
         (case parseLookup P (data reply) of
            None \<Rightarrow> True
          | Some json \<Rightarrow> resultCount json \<le> 0 \<or> results json = []))"

text \<open>
  The answer of the first region that answers, and the regions probed to find it: both
  depend on the replies only, not on the state.
\<close>

fun firstAnswer :: "platform \<Rightarrow> jsstring \<Rightarrow> jsstring list \<Rightarrow> (appInfo \<times> jsstring) option" where
  "firstAnswer P appId [] = None"
| "firstAnswer P appId (reg # rest) =
     (case lookupResult P reg appId of
        Some appInfo \<Rightarrow> Some (appInfo, reg)
      | None \<Rightarrow> firstAnswer P appId rest)"

fun probed :: "platform \<Rightarrow> jsstring \<Rightarrow> jsstring list \<Rightarrow> jsstring list" where
  "probed P appId [] = []"
| "probed P appId (reg # rest) =
     reg # (case lookupResult P reg appId of Some appInfo \<Rightarrow> [] | None \<Rightarrow> probed P appId rest)"

definition probeUrls :: "platform \<Rightarrow> jsstring list \<Rightarrow> jsstring \<Rightarrow> jsstring list" where
  "probeUrls P regions appId = map (\<lambda>reg. lookupUrl reg appId) (probed P appId regions)"

definition entryOf :: "appInfo \<Rightarrow> jsstring \<Rightarrow> appRecord" where
  "entryOf appInfo regionUsed =
     \<lparr>version = appInfo.version appInfo, region = regionUsed, name = trackName appInfo\<rparr>"

text \<open>
  A waiting task is on course when the regions before the one it is probing have all
  missed for its id. \<open>laterUrls\<close> are the requests a waiting task will still make.
\<close>

definition onCourse :: "platform \<Rightarrow> jsstring list \<Rightarrow> task \<Rightarrow> bool" where
  "onCourse P regions t =
     (\<exists>pre. regions = pre @ probing t # remaining t \<and>
            list_all (\<lambda>q. lookupResult P q (taskId t) = None) pre)"

definition laterUrls :: "platform \<Rightarrow> task \<Rightarrow> jsstring list" where
  "laterUrls P t =
     (case lookupResult P (probing t) (taskId t) of
        Some appInfo \<Rightarrow> []
      | None \<Rightarrow> map (\<lambda>reg. lookupUrl reg (taskId t)) (probed P (taskId t) (remaining t)))"

text \<open>
  The record a run leaves for a tracked id whose record was \<open>r\<close> when the tasks
  started: the first answer replaces \<open>r\<close> when the version of \<open>r\<close> is empty or the
  answer's version compares greater, and \<open>r\<close> stays otherwise.
\<close>

definition recordAfter :: "platform \<Rightarrow> jsstring list \<Rightarrow> jsstring \<Rightarrow> appRecord \<Rightarrow> appRecord" where
  "recordAfter P regions appId r =
     (case firstAnswer P appId regions of
        None \<Rightarrow> r
      | Some (appInfo, regionUsed) \<Rightarrow>
          if version r = [] then entryOf appInfo regionUsed
          else if compareVersions (appInfo.version appInfo) (version r) > 0
          then entryOf appInfo regionUsed
          else r)"

text \<open>The number of entries in the four log buckets.\<close>

definition logCount :: "log_buckets \<Rightarrow> nat" where
  "logCount l = length (initial l) + length (updated l) + length (noUpdate l) + length (notFound l)"

text \<open>The state of an active run when all tasks have finished, before the final write.\<close>

definition tasksDone :: "platform \<Rightarrow> state \<Rightarrow> state" where
  "tasksDone P s =
     runTasks P (regionsOf P (store s REGIONS_KEY)) (newIdsOf (store s APP_IDS_KEY))
       (s\<lparr>monitoredData := handleDeletions (newIdsOf (store s APP_IDS_KEY))
                              (loadMonitored P (store s MONITORED_APPS_KEY)),
          logs := emptyLogs\<rparr>)"

section \<open>Example inputs\<close>

text \<open>
  A catalogue in which only the region \<open>cn\<close> lists the id \<open>1\<close>, at version \<open>v\<close>, and a
  store parser that reads the blob \<open>T\<close> as a table with one record for the id \<open>1\<close>
  whose version is \<open>old\<close>, and fails on every other blob. Its \<open>n\<close>-th delivery
  goes to the waiting task at position \<open>n\<close>, counted around the list.
\<close>

definition demoInfo :: "jsstring \<Rightarrow> appInfo" where
  "demoInfo v =
     \<lparr>trackName = js ''Demo'', appInfo.version = v, releaseNotes = None,
      currentVersionReleaseDate = js ''2024-05-01T08:00:00Z''\<rparr>"

definition demoPlatform :: "jsstring \<Rightarrow> jsstring \<Rightarrow> platform" where
  "demoPlatform v old =
     \<lparr>httpGet = (\<lambda>url. if url = lookupUrl (js ''cn'') (js ''1'')
                       then \<lparr>error = False, status = Some 200, data = js ''R''\<rparr>
                       else \<lparr>error = True, status = None, data = []\<rparr>),
      parseLookup = (\<lambda>d. if d = js ''R''
                           then Some \<lparr>resultCount = 1, results = [demoInfo v]\<rparr> else None),
      parseMonitored = (\<lambda>blob. if blob = js ''T''
                                 then Some [js ''1'' \<mapsto> \<lparr>version = old, region = js ''cn'', name = js ''Demo''\<rparr>]
                                 else None),
      stringify = (\<lambda>m. js ''S''),
      toLowerCase = (\<lambda>x. x),
      arrival = (\<lambda>n. n)\<rparr>"

definition demoState :: "(jsstring \<rightharpoonup> jsstring) \<Rightarrow> state" where
  "demoState st =
     \<lparr>store = st, posted = [], requests = [], finished = False,
      monitoredData = Map.empty, logs = emptyLogs\<rparr>"

text \<open>A state in which the table holds one record for the id \<open>1\<close>, with version \<open>old\<close>.\<close>

definition demoTracked :: "jsstring \<Rightarrow> state" where
  "demoTracked old =
     \<lparr>store = Map.empty, posted = [], requests = [], finished = False,
      monitoredData = [js ''1'' \<mapsto> \<lparr>version = old, region = js ''cn'', name = js ''Demo''\<rparr>],
      logs = emptyLogs\<rparr>"

section \<open>Properties of the comparator\<close>

lemma cmp_parts_swap:
  "cmp_parts b a len i = map_option uminus (cmp_parts a b len i)"
proof (induction a b len i rule: cmp_parts.induct)
  case (1 a b len i)
  show ?case
  proof (cases "i < len")
    case False
    then show ?thesis by (simp add: cmp_parts.simps [of _ _ len i])
  next
    case True
    then show ?thesis
      using "1.IH" [OF True refl refl]
      by (simp add: cmp_parts.simps [of _ _ len i] Let_def)
  qed
qed

lemma cmp_parts_same: "a = b \<Longrightarrow> cmp_parts a b len i = None"
proof (induction a b len i rule: cmp_parts.induct)
  case (1 a b len i)
  show ?case
  proof (cases "i < len")
    case False
    then show ?thesis by (simp add: cmp_parts.simps [of _ _ len i])
  next
    case True
    then show ?thesis
      using "1.IH" [OF True refl refl] "1.prems"
      by (simp add: cmp_parts.simps [of _ _ len i] Let_def)
  qed
qed

lemma compareVersions_refl: "compareVersions v v = 0"
  by (simp add: compareVersions_def Let_def cmp_parts_same)

text \<open>
  C4. On the four pairs of the specification the comparator returns
  \<open>compare("6.8(12)", "6.8(5)") = 1\<close>, \<open>compare("6.8", "6.8(1)") = -1\<close>,
  \<open>compare("1.2.0", "1.2") = 0\<close> and \<open>compare("1.10.0", "1.9.9") = 1\<close>.
\<close>

theorem compareVersions_examples:
  "compareVersions (js ''6.8(12)'') (js ''6.8(5)'') = 1 \<and>
   compareVersions (js ''6.8'') (js ''6.8(1)'') = - 1 \<and>
   compareVersions (js ''1.2.0'') (js ''1.2'') = 0 \<and>
   compareVersions (js ''1.10.0'') (js ''1.9.9'') = 1"
  by code_simp

text \<open>
  C5. For every pair of version strings \<open>a\<close> and \<open>b\<close>,
  \<open>compareVersions(a, b) = -compareVersions(b, a)\<close>.
\<close>

theorem compareVersions_antisym:
  "compareVersions a b = - compareVersions b a"
proof -
  have "cmp_parts (parts (parse b)) (parts (parse a))
          (max (length (parts (parse a))) (length (parts (parse b)))) 0
        = map_option uminus (cmp_parts (parts (parse a)) (parts (parse b))
          (max (length (parts (parse a))) (length (parts (parse b)))) 0)"
    by (rule cmp_parts_swap)
  then show ?thesis
    by (auto simp: compareVersions_def Let_def max.commute split: option.splits)
qed

lemma takeWhile_Nil_iff:
  "takeWhile P xs = [] \<longleftrightarrow> (case xs of [] \<Rightarrow> True | x # _ \<Rightarrow> \<not> P x)"
  by (cases xs) auto

lemma parseInt_None_iff: "parseInt p = None \<longleftrightarrow> nonNumeric p"
proof (cases "dropWhile isWhiteSpace p")
  case Nil
  then show ?thesis
    by (simp add: parseInt_def nonNumeric_def del: dropWhile_eq_Nil_conv)
next
  case (Cons c r)
  then show ?thesis
    by (cases r) (simp_all add: parseInt_def nonNumeric_def Let_def takeWhile_Nil_iff)
qed

lemma parts_parse: "parts (parse v) = map segment (segments v)"
  by (simp add: parse_def segments_def Let_def split: prod.splits)

text \<open>
  The numeric parse is best effort: a segment that starts with digits contributes
  those digits, whatever follows them (\<open>"12ab"\<close> is 12).
\<close>

lemma segment_digit_prefix:
  "segment (js ''12ab'') = 12 \<and> segment (js ''ab12'') = 0 \<and> segment (js ''-3'') = - 3"
  by code_simp

text \<open>
  C6. When a version string is parsed, every segment of its dotted main part that is
  not numeric (the numeric parse finds no number at its start) is treated as the
  integer 0: the parts sequence has one entry for each segment, and the entry of a
  non-numeric segment is 0.
\<close>

theorem parse_nonNumeric_zero:
  "length (parts (parse v)) = length (segments v) \<and>
   (\<forall>i < length (segments v). nonNumeric (segments v ! i) \<longrightarrow> parts (parse v) ! i = 0)"
  by (simp add: parts_parse segment_def parseInt_None_iff [symmetric])

theorem parse_nonNumeric_zero_witness:
  "segments (js ''6.x'') = [js ''6'', js ''x''] \<and> nonNumeric (js ''x'') \<and>
   parts (parse (js ''6.x'')) ! 1 = 0"
proof -
  have s: "segments (js ''6.x'') = [js ''6'', js ''x'']" by code_simp
  have n: "nonNumeric (js ''x'')" by code_simp
  from parse_nonNumeric_zero [of "js ''6.x''"] s n
  have "parts (parse (js ''6.x'')) ! 1 = 0"
    by (metis One_nat_def length_Cons lessI list.size(3) nth_Cons_0 nth_Cons_Suc)
  with s n show ?thesis by simp
qed

section \<open>Early termination of a run\<close>

lemma truthy_None_iff: "truthy x = None \<longleftrightarrow> x = None \<or> x = Some []"
  by (auto simp: truthy_def split: option.splits)

lemma storedIsEmpty_iff:
  "storedIsEmpty d \<longleftrightarrow> truthy d = None \<or> d = Some (js ''{}'') \<or> d = Some []"
  by (auto simp: storedIsEmpty_def truthy_None_iff)

text \<open>
  C7. If no tracked-id configuration is present (the key is unset or holds the empty
  string) and the persisted state is absent, empty or blank, the run posts a single
  configuration-needed notification and terminates without writing to the persisted
  state: nothing but the list of notifications and the termination flag changes.
\<close>

theorem main_unconfigured:
  assumes "truthy (store s APP_IDS_KEY) = None"
    and "storedIsEmpty (store s MONITORED_APPS_KEY)"
  shows "main P s = s\<lparr>posted := posted s @ [unconfiguredNotice], finished := True\<rparr>"
  using assms by (simp add: main_def storedIsEmpty_iff)

theorem main_unconfigured_witness:
  "truthy (store (demoState Map.empty) APP_IDS_KEY) = None \<and>
   storedIsEmpty (store (demoState Map.empty) MONITORED_APPS_KEY) \<and>
   posted (main (demoPlatform [] []) (demoState Map.empty)) = [unconfiguredNotice] \<and>
   store (main (demoPlatform [] []) (demoState Map.empty)) = Map.empty \<and>
   finished (main (demoPlatform [] []) (demoState Map.empty))"
proof -
  have a: "truthy (store (demoState Map.empty) APP_IDS_KEY) = None"
    by (simp add: demoState_def truthy_def)
  have b: "storedIsEmpty (store (demoState Map.empty) MONITORED_APPS_KEY)"
    by (simp add: demoState_def storedIsEmpty_def)
  show ?thesis
    using a b main_unconfigured [OF a b, of "demoPlatform [] []"]
    by (simp add: demoState_def)
qed

lemma main_erase:
  assumes "newIdsOf (store s APP_IDS_KEY) = []"
    and "\<not> storedIsEmpty (store s MONITORED_APPS_KEY)"
  shows "main P s = s\<lparr>store := (store s)(MONITORED_APPS_KEY \<mapsto> []), finished := True\<rparr>"
  using assms by (auto simp: main_def storedIsEmpty_iff Let_def)

lemma main_noop:
  assumes "newIdsOf (store s APP_IDS_KEY) = []"
    and "storedIsEmpty (store s MONITORED_APPS_KEY)"
  shows "store (main P s) = store s \<and> finished (main P s)"
  using assms by (auto simp: main_def storedIsEmpty_iff Let_def)

lemma main_active:
  assumes "newIdsOf (store s APP_IDS_KEY) \<noteq> []"
  shows "main P s =
     (tasksDone P s)\<lparr>store := (store (tasksDone P s))(MONITORED_APPS_KEY \<mapsto>
                         stringify P (monitoredData (tasksDone P s))),
                      finished := True\<rparr>"
proof -
  obtain ids where "truthy (store s APP_IDS_KEY) = Some ids"
    using assms by (cases "truthy (store s APP_IDS_KEY)") (simp_all add: newIdsOf_def)
  then show ?thesis
    using assms by (simp add: main_def tasksDone_def Let_def)
qed

text \<open>
  C8. If the tracked-id configuration resolves to an empty list while the persisted
  state is not empty, the run erases the persisted state (the blob becomes the empty
  string, which the next run reads as the empty table) and terminates with no
  notification posted; if the persisted state is already empty, the run terminates
  without writing to the store.
\<close>

theorem main_empty_tracked:
  assumes "newIdsOf (store s APP_IDS_KEY) = []"
  shows "(\<not> storedIsEmpty (store s MONITORED_APPS_KEY) \<longrightarrow>
            main P s = s\<lparr>store := (store s)(MONITORED_APPS_KEY \<mapsto> []), finished := True\<rparr> \<and>
            posted (main P s) = posted s \<and>
            loadMonitored P (store (main P s) MONITORED_APPS_KEY) = Map.empty) \<and>
         (storedIsEmpty (store s MONITORED_APPS_KEY) \<longrightarrow>
            store (main P s) = store s \<and> finished (main P s))"
proof (intro conjI impI)
  assume n: "\<not> storedIsEmpty (store s MONITORED_APPS_KEY)"
  show e: "main P s = s\<lparr>store := (store s)(MONITORED_APPS_KEY \<mapsto> []), finished := True\<rparr>"
    by (rule main_erase [OF assms n])
  show "posted (main P s) = posted s" by (simp add: e)
  show "loadMonitored P (store (main P s) MONITORED_APPS_KEY) = Map.empty"
    by (simp add: e loadMonitored_def truthy_def)
next
  assume "storedIsEmpty (store s MONITORED_APPS_KEY)"
  from main_noop [OF assms this]
  show "store (main P s) = store s" and "finished (main P s)" by simp_all
qed


theorem main_empty_tracked_witness:
  "newIdsOf (store (demoState [MONITORED_APPS_KEY \<mapsto> js ''T'']) APP_IDS_KEY) = [] \<and>
   \<not> storedIsEmpty (store (demoState [MONITORED_APPS_KEY \<mapsto> js ''T'']) MONITORED_APPS_KEY) \<and>
   store (main (demoPlatform [] []) (demoState [MONITORED_APPS_KEY \<mapsto> js ''T''])) MONITORED_APPS_KEY = Some [] \<and>
   posted (main (demoPlatform [] []) (demoState [MONITORED_APPS_KEY \<mapsto> js ''T''])) = [] \<and>
   newIdsOf (store (demoState [APP_IDS_KEY \<mapsto> js '' , '']) APP_IDS_KEY) = [] \<and>
   storedIsEmpty (store (demoState [APP_IDS_KEY \<mapsto> js '' , '']) MONITORED_APPS_KEY) \<and>
   store (main (demoPlatform [] []) (demoState [APP_IDS_KEY \<mapsto> js '' , ''])) =
     [APP_IDS_KEY \<mapsto> js '' , '']"
proof -
  let ?A = "demoState [MONITORED_APPS_KEY \<mapsto> js ''T'']"
  let ?B = "demoState [APP_IDS_KEY \<mapsto> js '' , '']"
  have a1: "newIdsOf (store ?A APP_IDS_KEY) = []" by code_simp
  have a2: "\<not> storedIsEmpty (store ?A MONITORED_APPS_KEY)" by code_simp
  have b1: "newIdsOf (store ?B APP_IDS_KEY) = []" by code_simp
  have b2: "storedIsEmpty (store ?B MONITORED_APPS_KEY)" by code_simp
  from main_empty_tracked [OF a1, of "demoPlatform [] []"] a2
  have a3: "main (demoPlatform [] []) ?A =
      ?A\<lparr>store := (store ?A)(MONITORED_APPS_KEY \<mapsto> []), finished := True\<rparr>"
    by blast
  from main_empty_tracked [OF b1, of "demoPlatform [] []"] b2
  have b3: "store (main (demoPlatform [] []) ?B) = store ?B" by blast
  have a4: "store (main (demoPlatform [] []) ?A) MONITORED_APPS_KEY = Some []"
    and a5: "posted (main (demoPlatform [] []) ?A) = []"
    by (simp_all add: a3) (simp add: demoState_def)
  have b4: "store (main (demoPlatform [] []) ?B) = [APP_IDS_KEY \<mapsto> js '' , '']"
    by (simp add: b3) (simp add: demoState_def)
  from a1 a2 a4 a5 b1 b2 b4 show ?thesis by blast
qed

section \<open>Region resolution, proved\<close>

lemma lookupResult_None_iff: "lookupResult P r appId = None \<longleftrightarrow> probeFails P r appId"
  by (auto simp: lookupResult_def probeFails_def Let_def split: option.splits list.splits)

lemma probe_regions_eq:
  "probe_regions P appId regions s =
     (firstAnswer P appId regions, s\<lparr>requests := requests s @ probeUrls P regions appId\<rparr>)"
proof (induction regions arbitrary: s)
  case Nil
  show ?case by (simp add: probeUrls_def)
next
  case (Cons r rest)
  show ?case
    by (cases "lookupResult P r appId") (simp_all add: lookupApp_def Cons.IH probeUrls_def)
qed

lemma all_miss:
  "\<forall>q\<in>set regions. lookupResult P q appId = None \<Longrightarrow>
   firstAnswer P appId regions = None \<and> probed P appId regions = regions"
  by (induction regions) simp_all

lemma first_hit:
  "\<forall>q\<in>set pre. lookupResult P q appId = None \<Longrightarrow> lookupResult P r appId = Some info \<Longrightarrow>
   firstAnswer P appId (pre @ r # post) = Some (info, r) \<and>
   probed P appId (pre @ r # post) = pre @ [r]"
  by (induction pre) simp_all

lemma notFound_classify [simp]:
  "notFound (logs (classify appId info reg s)) = notFound (logs s)"
  by (simp add: classify_def Let_def push_initial_def push_updated_def push_noUpdate_def
      split: option.splits)

text \<open>
  C3. Region resolution for one identifier probes the regions in order. A probe that
  fails (transport error, status other than 200, unparseable payload, payload with no
  result) is a miss, and the loop goes on with the next region. The first region
  that answers ends the loop: its result is returned with its name, and the requests
  made are those of the regions up to it, none for a later region. When every region
  misses, and only then, a not-found entry that lists all the regions is logged: it
  is appended to the not-found bucket, every region has been requested, and the
  table and the notifications are as they were.
\<close>

theorem region_resolution:
  "(probeFails P r0 appId \<longrightarrow>
      probe_regions P appId (r0 # rest) s =
      probe_regions P appId rest (s\<lparr>requests := requests s @ [lookupUrl r0 appId]\<rparr>)) \<and>
   ((\<forall>q\<in>set pre. probeFails P q appId) \<and> \<not> probeFails P r appId \<longrightarrow>
      (\<exists>info. lookupResult P r appId = Some info \<and>
         probe_regions P appId (pre @ r # post) s =
         (Some (info, r),
          s\<lparr>requests := requests s @ map (\<lambda>q. lookupUrl q appId) (pre @ [r])\<rparr>))) \<and>
   ((\<forall>q\<in>set regions. probeFails P q appId) \<longrightarrow>
      checkAppUpdate P appId regions s =
      push_notFound (LogNotFound appId regions)
        (s\<lparr>requests := requests s @ map (\<lambda>q. lookupUrl q appId) regions\<rparr>) \<and>
      notFound (logs (checkAppUpdate P appId regions s)) =
        notFound (logs s) @ [LogNotFound appId regions] \<and>
      requests (checkAppUpdate P appId regions s) =
        requests s @ map (\<lambda>q. lookupUrl q appId) regions \<and>
      monitoredData (checkAppUpdate P appId regions s) = monitoredData s \<and>
      posted (checkAppUpdate P appId regions s) = posted s) \<and>
   (\<not> (\<forall>q\<in>set regions. probeFails P q appId) \<longrightarrow>
      notFound (logs (checkAppUpdate P appId regions s)) = notFound (logs s))"
proof (intro conjI impI)
  assume "probeFails P r0 appId"
  then have "lookupResult P r0 appId = None" by (simp add: lookupResult_None_iff)
  then show "probe_regions P appId (r0 # rest) s =
      probe_regions P appId rest (s\<lparr>requests := requests s @ [lookupUrl r0 appId]\<rparr>)"
    by (simp add: lookupApp_def)
next
  assume a: "(\<forall>q\<in>set pre. probeFails P q appId) \<and> \<not> probeFails P r appId"
  then obtain info where i: "lookupResult P r appId = Some info"
    using lookupResult_None_iff [of P r appId] by (cases "lookupResult P r appId") auto
  from a have "\<forall>q\<in>set pre. lookupResult P q appId = None"
    by (simp add: lookupResult_None_iff)
  from first_hit [OF this i, of post] i
  show "\<exists>info. lookupResult P r appId = Some info \<and>
         probe_regions P appId (pre @ r # post) s =
         (Some (info, r),
          s\<lparr>requests := requests s @ map (\<lambda>q. lookupUrl q appId) (pre @ [r])\<rparr>)"
    by (simp add: probe_regions_eq probeUrls_def)
next
  assume "\<forall>q\<in>set regions. probeFails P q appId"
  then have "\<forall>q\<in>set regions. lookupResult P q appId = None"
    by (simp add: lookupResult_None_iff)
  from all_miss [OF this]
  show e: "checkAppUpdate P appId regions s =
      push_notFound (LogNotFound appId regions)
        (s\<lparr>requests := requests s @ map (\<lambda>q. lookupUrl q appId) regions\<rparr>)"
    by (simp add: checkAppUpdate_def probe_regions_eq probeUrls_def)
  show "notFound (logs (checkAppUpdate P appId regions s)) =
        notFound (logs s) @ [LogNotFound appId regions]"
    by (simp add: e push_notFound_def)
  show "requests (checkAppUpdate P appId regions s) =
        requests s @ map (\<lambda>q. lookupUrl q appId) regions"
    by (simp add: e push_notFound_def)
  show "monitoredData (checkAppUpdate P appId regions s) = monitoredData s"
    by (simp add: e push_notFound_def)
  show "posted (checkAppUpdate P appId regions s) = posted s"
    by (simp add: e push_notFound_def)
next
  assume "\<not> (\<forall>q\<in>set regions. probeFails P q appId)"
  then have "\<exists>q\<in>set regions. lookupResult P q appId \<noteq> None"
    by (simp add: lookupResult_None_iff)
  then have "firstAnswer P appId regions \<noteq> None"
    by (induction regions) (auto split: option.splits)
  then show "notFound (logs (checkAppUpdate P appId regions s)) = notFound (logs s)"
    by (auto simp: checkAppUpdate_def probe_regions_eq)
qed


theorem region_resolution_witness:
  "probeFails (demoPlatform (js ''2.0'') []) (js ''us'') (js ''1'') \<and>
   \<not> probeFails (demoPlatform (js ''2.0'') []) (js ''cn'') (js ''1'') \<and>
   probeFails (demoPlatform (js ''2.0'') []) (js ''hk'') (js ''1'') \<and>
   probe_regions (demoPlatform (js ''2.0'') []) (js ''1'') [js ''us'', js ''cn'', js ''hk'']
       (demoState Map.empty) =
     (Some (demoInfo (js ''2.0''), js ''cn''),
      (demoState Map.empty)\<lparr>requests :=
         [lookupUrl (js ''us'') (js ''1''), lookupUrl (js ''cn'') (js ''1'')]\<rparr>) \<and>
   checkAppUpdate (demoPlatform (js ''2.0'') []) (js ''1'') [js ''us'', js ''hk'']
       (demoState Map.empty) =
     push_notFound (LogNotFound (js ''1'') [js ''us'', js ''hk''])
       ((demoState Map.empty)\<lparr>requests :=
          [lookupUrl (js ''us'') (js ''1''), lookupUrl (js ''hk'') (js ''1'')]\<rparr>) \<and>
   notFound (logs (checkAppUpdate (demoPlatform (js ''2.0'') []) (js ''1'') [js ''us'', js ''hk'']
       (demoState Map.empty))) =
     [LogNotFound (js ''1'') [js ''us'', js ''hk'']] \<and>
   requests (checkAppUpdate (demoPlatform (js ''2.0'') []) (js ''1'') [js ''us'', js ''hk'']
       (demoState Map.empty)) =
     [lookupUrl (js ''us'') (js ''1''), lookupUrl (js ''hk'') (js ''1'')]"
proof -
  let ?P = "demoPlatform (js ''2.0'') []"
  have us: "probeFails ?P (js ''us'') (js ''1'')" by code_simp
  have cn: "\<not> probeFails ?P (js ''cn'') (js ''1'')" by code_simp
  have hk: "probeFails ?P (js ''hk'') (js ''1'')" by code_simp
  have info: "lookupResult ?P (js ''cn'') (js ''1'') = Some (demoInfo (js ''2.0''))" by code_simp
  have req: "requests (demoState Map.empty) = []" by (simp add: demoState_def)
  from region_resolution [where P = "?P" and appId = "js ''1''" and s = "demoState Map.empty"
      and pre = "[js ''us'']" and r = "js ''cn''" and post = "[js ''hk'']"] us cn info
  have hit: "probe_regions ?P (js ''1'') [js ''us'', js ''cn'', js ''hk''] (demoState Map.empty) =
     (Some (demoInfo (js ''2.0''), js ''cn''),
      (demoState Map.empty)\<lparr>requests :=
         [lookupUrl (js ''us'') (js ''1''), lookupUrl (js ''cn'') (js ''1'')]\<rparr>)"
    by (simp add: req)
  have nf: "notFound (logs (demoState Map.empty)) = []"
    by (simp add: demoState_def emptyLogs_def)
  have all_miss: "\<forall>q\<in>set [js ''us'', js ''hk'']. probeFails ?P q (js ''1'')"
    using us hk by simp
  from region_resolution [where P = "?P" and appId = "js ''1''" and s = "demoState Map.empty"
      and regions = "[js ''us'', js ''hk'']"] all_miss
  have "checkAppUpdate ?P (js ''1'') [js ''us'', js ''hk''] (demoState Map.empty) =
     push_notFound (LogNotFound (js ''1'') [js ''us'', js ''hk''])
       ((demoState Map.empty)\<lparr>requests := requests (demoState Map.empty) @
          map (\<lambda>q. lookupUrl q (js ''1'')) [js ''us'', js ''hk'']\<rparr>) \<and>
     notFound (logs (checkAppUpdate ?P (js ''1'') [js ''us'', js ''hk''] (demoState Map.empty))) =
       notFound (logs (demoState Map.empty)) @ [LogNotFound (js ''1'') [js ''us'', js ''hk'']] \<and>
     requests (checkAppUpdate ?P (js ''1'') [js ''us'', js ''hk''] (demoState Map.empty)) =
       requests (demoState Map.empty) @ map (\<lambda>q. lookupUrl q (js ''1'')) [js ''us'', js ''hk'']"
    by blast
  then have miss: "checkAppUpdate ?P (js ''1'') [js ''us'', js ''hk''] (demoState Map.empty) =
     push_notFound (LogNotFound (js ''1'') [js ''us'', js ''hk''])
       ((demoState Map.empty)\<lparr>requests :=
          [lookupUrl (js ''us'') (js ''1''), lookupUrl (js ''hk'') (js ''1'')]\<rparr>) \<and>
     notFound (logs (checkAppUpdate ?P (js ''1'') [js ''us'', js ''hk''] (demoState Map.empty))) =
       [LogNotFound (js ''1'') [js ''us'', js ''hk'']] \<and>
     requests (checkAppUpdate ?P (js ''1'') [js ''us'', js ''hk''] (demoState Map.empty)) =
       [lookupUrl (js ''us'') (js ''1''), lookupUrl (js ''hk'') (js ''1'')]"
    unfolding req nf by (elim conjE) simp
  from us cn hk hit miss show ?thesis by blast
qed

section \<open>Classification, proved\<close>

lemma storedVersion_None_iff:
  "storedVersion m appId = None \<longleftrightarrow>
   m appId = None \<or> (\<exists>r. m appId = Some r \<and> version r = [])"
  by (auto simp: storedVersion_def truthy_def split: option.splits)

lemma storedVersion_Some:
  "m appId = Some r \<Longrightarrow> version r \<noteq> [] \<Longrightarrow> storedVersion m appId = Some (version r)"
  by (simp add: storedVersion_def truthy_def)

lemma monitoredData_push [simp]:
  "monitoredData (push_initial e s) = monitoredData s"
  "monitoredData (push_updated e s) = monitoredData s"
  "monitoredData (push_noUpdate e s) = monitoredData s"
  "monitoredData (push_notFound e s) = monitoredData s"
  by (simp_all add: push_initial_def push_updated_def push_noUpdate_def push_notFound_def)

lemma posted_push [simp]:
  "posted (push_initial e s) = posted s"
  "posted (push_updated e s) = posted s"
  "posted (push_noUpdate e s) = posted s"
  "posted (push_notFound e s) = posted s"
  by (simp_all add: push_initial_def push_updated_def push_noUpdate_def push_notFound_def)

lemma requests_push [simp]:
  "requests (push_initial e s) = requests s"
  "requests (push_updated e s) = requests s"
  "requests (push_noUpdate e s) = requests s"
  "requests (push_notFound e s) = requests s"
  by (simp_all add: push_initial_def push_updated_def push_noUpdate_def push_notFound_def)

lemma store_push [simp]:
  "store (push_initial e s) = store s"
  "store (push_updated e s) = store s"
  "store (push_noUpdate e s) = store s"
  "store (push_notFound e s) = store s"
  by (simp_all add: push_initial_def push_updated_def push_noUpdate_def push_notFound_def)

lemma classify_first:
  assumes "storedVersion (monitoredData s) appId = None"
  shows "classify appId info reg s =
     (push_initial (LogInitial reg (trackName info) appId (appInfo.version info)) s)
       \<lparr>monitoredData := (monitoredData s)(appId \<mapsto> entryOf info reg),
        posted := posted s @ [compose appId info reg None]\<rparr>"
  using assms by (simp add: classify_def Let_def entryOf_def)

lemma classify_stored:
  assumes "storedVersion (monitoredData s) appId = Some sv"
  shows "classify appId info reg s =
     (if compareVersions (appInfo.version info) sv > 0
      then (push_updated (LogUpdated reg (trackName info) appId sv (appInfo.version info)) s)
             \<lparr>monitoredData := (monitoredData s)(appId \<mapsto> entryOf info reg),
              posted := posted s @ [compose appId info reg (Some sv)]\<rparr>
      else if compareVersions (appInfo.version info) sv < 0
      then push_noUpdate (LogLower reg (trackName info) appId (appInfo.version info) sv) s
      else push_noUpdate (LogLatest reg (trackName info) appId (appInfo.version info)) s)"
proof -
  from assms obtain r where "monitoredData s appId = Some r"
    by (cases "monitoredData s appId") (simp_all add: storedVersion_def truthy_def)
  with assms show ?thesis
    by (simp add: classify_def Let_def entryOf_def)
qed

text \<open>
  C1 (as amended). For every resolved observation: if no record is stored for the id,
  or the stored record has an empty version, the observation is logged as first seen,
  the entry is written and the "added" notification is posted; otherwise, if the
  observed version compares greater than the stored version, it is logged as updated,
  the entry is written and the "update" notification is posted; if it compares less,
  it is logged as lower than the recorded version, and if it compares equal as
  already the latest, and in both cases the table and the notifications stay as they
  were.
\<close>

theorem classify_decision_table:
  "((monitoredData s appId = None \<or> (\<exists>r. monitoredData s appId = Some r \<and> version r = [])) \<longrightarrow>
      classify appId info reg s =
        (push_initial (LogInitial reg (trackName info) appId (appInfo.version info)) s)
          \<lparr>monitoredData := (monitoredData s)(appId \<mapsto> entryOf info reg),
           posted := posted s @ [compose appId info reg None]\<rparr>) \<and>
   (\<forall>r. monitoredData s appId = Some r \<and> version r \<noteq> [] \<longrightarrow>
      (compareVersions (appInfo.version info) (version r) > 0 \<longrightarrow>
         classify appId info reg s =
           (push_updated (LogUpdated reg (trackName info) appId (version r) (appInfo.version info)) s)
             \<lparr>monitoredData := (monitoredData s)(appId \<mapsto> entryOf info reg),
              posted := posted s @ [compose appId info reg (Some (version r))]\<rparr>) \<and>
      (compareVersions (appInfo.version info) (version r) < 0 \<longrightarrow>
         classify appId info reg s =
           push_noUpdate (LogLower reg (trackName info) appId (appInfo.version info) (version r)) s \<and>
         monitoredData (classify appId info reg s) = monitoredData s \<and>
         posted (classify appId info reg s) = posted s) \<and>
      (compareVersions (appInfo.version info) (version r) = 0 \<longrightarrow>
         classify appId info reg s =
           push_noUpdate (LogLatest reg (trackName info) appId (appInfo.version info)) s \<and>
         monitoredData (classify appId info reg s) = monitoredData s \<and>
         posted (classify appId info reg s) = posted s))"
proof (intro conjI allI impI)
  assume "monitoredData s appId = None \<or> (\<exists>r. monitoredData s appId = Some r \<and> version r = [])"
  then have "storedVersion (monitoredData s) appId = None"
    by (simp add: storedVersion_None_iff)
  then show "classify appId info reg s =
        (push_initial (LogInitial reg (trackName info) appId (appInfo.version info)) s)
          \<lparr>monitoredData := (monitoredData s)(appId \<mapsto> entryOf info reg),
           posted := posted s @ [compose appId info reg None]\<rparr>"
    by (rule classify_first)
next
  fix r
  assume r: "monitoredData s appId = Some r \<and> version r \<noteq> []"
  then have sv: "storedVersion (monitoredData s) appId = Some (version r)"
    by (simp add: storedVersion_Some)
  note c = classify_stored [OF sv, of info reg]
  {
    assume "compareVersions (appInfo.version info) (version r) > 0"
    then show "classify appId info reg s =
           (push_updated (LogUpdated reg (trackName info) appId (version r) (appInfo.version info)) s)
             \<lparr>monitoredData := (monitoredData s)(appId \<mapsto> entryOf info reg),
              posted := posted s @ [compose appId info reg (Some (version r))]\<rparr>"
      by (simp add: c)
  next
    assume lt: "compareVersions (appInfo.version info) (version r) < 0"
    then show e: "classify appId info reg s =
           push_noUpdate (LogLower reg (trackName info) appId (appInfo.version info) (version r)) s"
      by (simp add: c)
    show "monitoredData (classify appId info reg s) = monitoredData s"
      and "posted (classify appId info reg s) = posted s"
      by (simp_all add: e)
  next
    assume eq: "compareVersions (appInfo.version info) (version r) = 0"
    then show e: "classify appId info reg s =
           push_noUpdate (LogLatest reg (trackName info) appId (appInfo.version info)) s"
      by (simp add: c)
    show "monitoredData (classify appId info reg s) = monitoredData s"
      and "posted (classify appId info reg s) = posted s"
      by (simp_all add: e)
  }
qed

text \<open>
  The table as the claim has it fails where a record is stored with an empty version:
  the observed version \<open>0\<close> compares equal to it, yet the observation is logged as
  first seen, the entry is overwritten and a notification is posted.
\<close>

theorem classify_empty_version_counterexample:
  "monitoredData (demoTracked []) (js ''1'') =
     Some \<lparr>version = [], region = js ''cn'', name = js ''Demo''\<rparr> \<and>
   compareVersions (js ''0'') [] = 0 \<and>
   initial (logs (classify (js ''1'') (demoInfo (js ''0'')) (js ''cn'') (demoTracked []))) =
     [LogInitial (js ''cn'') (js ''Demo'') (js ''1'') (js ''0'')] \<and>
   noUpdate (logs (classify (js ''1'') (demoInfo (js ''0'')) (js ''cn'') (demoTracked []))) = [] \<and>
   monitoredData (classify (js ''1'') (demoInfo (js ''0'')) (js ''cn'') (demoTracked [])) (js ''1'') =
     Some \<lparr>version = js ''0'', region = js ''cn'', name = js ''Demo''\<rparr> \<and>
   posted (classify (js ''1'') (demoInfo (js ''0'')) (js ''cn'') (demoTracked [])) =
     [compose (js ''1'') (demoInfo (js ''0'')) (js ''cn'') None]"
proof -
  have m: "monitoredData (demoTracked []) (js ''1'') =
     Some \<lparr>version = [], region = js ''cn'', name = js ''Demo''\<rparr>"
    by (simp add: demoTracked_def)
  have c: "compareVersions (js ''0'') [] = 0" by code_simp
  have sv: "storedVersion (monitoredData (demoTracked [])) (js ''1'') = None"
    by (simp add: storedVersion_None_iff m)
  show ?thesis
    by (simp add: m c classify_first [OF sv] push_initial_def)
      (simp add: demoTracked_def emptyLogs_def entryOf_def demoInfo_def)
qed


theorem classify_decision_table_witness:
  "monitoredData (demoState Map.empty) (js ''1'') = None \<and>
   posted (classify (js ''1'') (demoInfo (js ''2.0'')) (js ''cn'') (demoState Map.empty)) =
     [compose (js ''1'') (demoInfo (js ''2.0'')) (js ''cn'') None] \<and>
   monitoredData (demoTracked (js ''1.0'')) (js ''1'') =
     Some \<lparr>version = js ''1.0'', region = js ''cn'', name = js ''Demo''\<rparr> \<and>
   compareVersions (js ''2.0'') (js ''1.0'') > 0 \<and>
   posted (classify (js ''1'') (demoInfo (js ''2.0'')) (js ''cn'') (demoTracked (js ''1.0''))) =
     [compose (js ''1'') (demoInfo (js ''2.0'')) (js ''cn'') (Some (js ''1.0''))] \<and>
   compareVersions (js ''0.9'') (js ''1.0'') < 0 \<and>
   classify (js ''1'') (demoInfo (js ''0.9'')) (js ''cn'') (demoTracked (js ''1.0'')) =
     push_noUpdate (LogLower (js ''cn'') (js ''Demo'') (js ''1'') (js ''0.9'') (js ''1.0''))
       (demoTracked (js ''1.0'')) \<and>
   compareVersions (js ''1.0'') (js ''1.0'') = 0 \<and>
   classify (js ''1'') (demoInfo (js ''1.0'')) (js ''cn'') (demoTracked (js ''1.0'')) =
     push_noUpdate (LogLatest (js ''cn'') (js ''Demo'') (js ''1'') (js ''1.0''))
       (demoTracked (js ''1.0''))"
proof -
  let ?r = "\<lparr>version = js ''1.0'', region = js ''cn'', name = js ''Demo''\<rparr>"
  have n: "monitoredData (demoState Map.empty) (js ''1'') = None"
    by (simp add: demoState_def)
  have m: "monitoredData (demoTracked (js ''1.0'')) (js ''1'') = Some ?r"
    by (simp add: demoTracked_def)
  have ne: "version ?r \<noteq> []" by (simp add: js_def)
  have gt: "compareVersions (js ''2.0'') (js ''1.0'') > 0" by code_simp
  have lt: "compareVersions (js ''0.9'') (js ''1.0'') < 0" by code_simp
  have eq: "compareVersions (js ''1.0'') (js ''1.0'') = 0" by code_simp
  have v: "appInfo.version (demoInfo x) = x" "trackName (demoInfo x) = js ''Demo''" for x
    by (simp_all add: demoInfo_def)
  from classify_decision_table [of "demoState Map.empty" "js ''1''" "demoInfo (js ''2.0'')" "js ''cn''"] n
  have 1: "posted (classify (js ''1'') (demoInfo (js ''2.0'')) (js ''cn'') (demoState Map.empty)) =
     [compose (js ''1'') (demoInfo (js ''2.0'')) (js ''cn'') None]"
    by (simp add: demoState_def)
  from classify_decision_table [of "demoTracked (js ''1.0'')" "js ''1''" "demoInfo (js ''2.0'')" "js ''cn''"]
    m ne gt
  have 2: "posted (classify (js ''1'') (demoInfo (js ''2.0'')) (js ''cn'') (demoTracked (js ''1.0''))) =
     [compose (js ''1'') (demoInfo (js ''2.0'')) (js ''cn'') (Some (js ''1.0''))]"
    by (simp add: v) (simp add: demoTracked_def)
  from classify_decision_table [of "demoTracked (js ''1.0'')" "js ''1''" "demoInfo (js ''0.9'')" "js ''cn''"]
    m ne lt
  have 3: "classify (js ''1'') (demoInfo (js ''0.9'')) (js ''cn'') (demoTracked (js ''1.0'')) =
     push_noUpdate (LogLower (js ''cn'') (js ''Demo'') (js ''1'') (js ''0.9'') (js ''1.0''))
       (demoTracked (js ''1.0''))"
    by (simp add: v)
  from classify_decision_table [of "demoTracked (js ''1.0'')" "js ''1''" "demoInfo (js ''1.0'')" "js ''cn''"]
    m ne eq
  have 4: "classify (js ''1'') (demoInfo (js ''1.0'')) (js ''cn'') (demoTracked (js ''1.0'')) =
     push_noUpdate (LogLatest (js ''cn'') (js ''Demo'') (js ''1'') (js ''1.0''))
       (demoTracked (js ''1.0''))"
    by (simp add: v)
  from n 1 m gt 2 lt 3 eq 4 show ?thesis by blast
qed

section \<open>One task on its own\<close>

lemma checkAppUpdate_eq:
  "checkAppUpdate P appId regions s =
     (case firstAnswer P appId regions of
        None \<Rightarrow> push_notFound (LogNotFound appId regions)
                  (s\<lparr>requests := requests s @ probeUrls P regions appId\<rparr>)
      | Some (info, reg) \<Rightarrow>
          classify appId info reg (s\<lparr>requests := requests s @ probeUrls P regions appId\<rparr>))"
  by (simp add: checkAppUpdate_def probe_regions_eq split: option.splits)

lemma requests_classify [simp]: "requests (classify appId info reg s) = requests s"
  by (simp add: classify_def Let_def split: option.splits)

lemma store_classify [simp]: "store (classify appId info reg s) = store s"
  by (simp add: classify_def Let_def split: option.splits)

lemma requests_checkAppUpdate:
  "requests (checkAppUpdate P appId regions s) = requests s @ probeUrls P regions appId"
  by (simp add: checkAppUpdate_eq split: option.splits)

lemma store_checkAppUpdate [simp]: "store (checkAppUpdate P appId regions s) = store s"
  by (simp add: checkAppUpdate_eq split: option.splits)

lemma monitoredData_classify_other:
  "x \<noteq> appId \<Longrightarrow> monitoredData (classify x info reg s) appId = monitoredData s appId"
  by (simp add: classify_def Let_def split: option.splits)

lemma monitoredData_checkAppUpdate_other:
  "x \<noteq> appId \<Longrightarrow> monitoredData (checkAppUpdate P x regions s) appId = monitoredData s appId"
  by (simp add: checkAppUpdate_eq monitoredData_classify_other split: option.splits)

section \<open>Steps of the tasks\<close>

lemma settle_Nil [simp]: "settle P regions n [] s = s"
  by (simp add: settle.simps)

lemma settle_step:
  "pending \<noteq> [] \<Longrightarrow>
   settle P regions n pending s =
     settle P regions (Suc n)
       (afterStep pending (arrival P n mod length pending)
          (snd (resume P regions (pending ! (arrival P n mod length pending)) s)))
       (fst (resume P regions (pending ! (arrival P n mod length pending)) s))"
  by (simp add: settle.simps [of P regions n pending s] Let_def)

lemma settle_invariant:
  assumes "I pending s"
    and "\<And>pending s k. I pending s \<Longrightarrow> k < length pending \<Longrightarrow>
           I (afterStep pending k (snd (resume P regions (pending ! k) s)))
             (fst (resume P regions (pending ! k) s))"
  shows "I [] (settle P regions n pending s)"
  using assms
proof (induction P regions n pending s rule: settle.induct)
  case (1 P regions n pending s)
  show ?case
  proof (cases "pending = []")
    case True
    with "1.prems"(1) show ?thesis by simp
  next
    case False
    let ?k = "arrival P n mod length pending"
    from False have "?k < length pending" by simp
    from "1.prems"(2) [OF "1.prems"(1) this]
    have "I (afterStep pending ?k (snd (resume P regions (pending ! ?k) s)))
            (fst (resume P regions (pending ! ?k) s))" .
    from "1.IH" [OF False refl refl this "1.prems"(2)] show ?thesis
      by (simp add: settle_step [OF False])
  qed
qed

lemma resume_cases:
  obtains (answer) info where "lookupResult P (probing t) (taskId t) = Some info"
      and "resume P regions t s = (classify (taskId t) info (probing t) s, None)"
  | (exhausted) "lookupResult P (probing t) (taskId t) = None" and "remaining t = []"
      and "resume P regions t s = (push_notFound (LogNotFound (taskId t) regions) s, None)"
  | (onward) reg rest where "lookupResult P (probing t) (taskId t) = None"
      and "remaining t = reg # rest"
      and "resume P regions t s =
             (s\<lparr>requests := requests s @ [lookupUrl reg (taskId t)]\<rparr>,
              Some (t\<lparr>probing := reg, remaining := rest\<rparr>))"
proof (cases "lookupResult P (probing t) (taskId t)")
  case (Some info)
  then show ?thesis by (intro answer [of info]) (simp_all add: resume_def)
next
  case None
  show ?thesis
  proof (cases "remaining t")
    case Nil
    with None show ?thesis by (intro exhausted) (simp_all add: resume_def)
  next
    case (Cons reg rest)
    with None show ?thesis by (intro onward [of reg rest]) (simp_all add: resume_def)
  qed
qed

lemma pending_split:
  "k < length pending \<Longrightarrow> pending = take k pending @ pending ! k # drop (Suc k) pending"
  by (rule id_take_nth_drop)

lemma set_split:
  assumes "k < length pending"
  shows "set pending = set (take k pending) \<union> insert (pending ! k) (set (drop (Suc k) pending))"
proof -
  have "set (drop k pending) = insert (pending ! k) (set (drop (Suc k) pending))"
    by (simp flip: Cons_nth_drop_Suc [OF assms])
  moreover have "set pending = set (take k pending) \<union> set (drop k pending)"
    by (simp flip: set_append)
  ultimately show ?thesis by simp
qed

lemma set_afterStep_None:
  assumes "k < length pending"
  shows "set (afterStep pending k None) \<subseteq> set pending"
    and "set pending \<subseteq> insert (pending ! k) (set (afterStep pending k None))"
proof -
  show "set (afterStep pending k None) \<subseteq> set pending"
    using set_take_subset [of k pending] set_drop_subset [of "Suc k" pending]
    by (auto simp: afterStep_def)
  have "set pending = set (take k pending) \<union> insert (pending ! k) (set (drop (Suc k) pending))"
    by (rule set_split [OF assms])
  then show "set pending \<subseteq> insert (pending ! k) (set (afterStep pending k None))"
    by (auto simp: afterStep_def)
qed

lemma set_afterStep_Some:
  assumes "k < length pending"
  shows "set (afterStep pending k (Some u)) \<subseteq> insert u (set pending)"
    and "u \<in> set (afterStep pending k (Some u))"
    and "set pending \<subseteq> insert (pending ! k) (set (afterStep pending k (Some u)))"
proof -
  show "set (afterStep pending k (Some u)) \<subseteq> insert u (set pending)"
    using set_take_subset [of k pending] set_drop_subset [of "Suc k" pending]
    by (auto simp: afterStep_def)
  show "u \<in> set (afterStep pending k (Some u))" by (simp add: afterStep_def)
  have "set pending = set (take k pending) \<union> insert (pending ! k) (set (drop (Suc k) pending))"
    by (rule set_split [OF assms])
  then show "set pending \<subseteq> insert (pending ! k) (set (afterStep pending k (Some u)))"
    by (auto simp: afterStep_def)
qed

lemma length_afterStep:
  "k < length pending \<Longrightarrow>
   length (afterStep pending k cont) + 1 =
   length pending + (case cont of None \<Rightarrow> 0 | Some t \<Rightarrow> 1)"
  by (cases cont) (auto simp: afterStep_def)

lemma concat_afterStep:
  assumes "k < length pending"
  shows "mset (concat (map f (afterStep pending k cont))) + mset (f (pending ! k)) =
         mset (concat (map f pending)) + mset (concat (map f (case cont of None \<Rightarrow> [] | Some t \<Rightarrow> [t])))"
proof -
  have "mset (concat (map f pending)) =
        mset (concat (map f (take k pending))) + mset (f (pending ! k)) +
        mset (concat (map f (drop (Suc k) pending)))"
    by (subst pending_split [OF assms]) simp
  then show ?thesis by (simp add: afterStep_def)
qed

lemma firstAnswer_skip:
  "list_all (\<lambda>q. lookupResult P q appId = None) pre \<Longrightarrow>
   firstAnswer P appId (pre @ rest) = firstAnswer P appId rest"
  by (induction pre) simp_all

lemma onCourse_firstAnswer:
  "onCourse P regions t \<Longrightarrow>
   firstAnswer P (taskId t) regions = firstAnswer P (taskId t) (probing t # remaining t)"
  by (auto simp: onCourse_def firstAnswer_skip)

lemma onCourse_answer:
  "onCourse P regions t \<Longrightarrow> lookupResult P (probing t) (taskId t) = Some info \<Longrightarrow>
   firstAnswer P (taskId t) regions = Some (info, probing t)"
  by (simp add: onCourse_firstAnswer)

lemma onCourse_exhausted:
  "onCourse P regions t \<Longrightarrow> lookupResult P (probing t) (taskId t) = None \<Longrightarrow>
   remaining t = [] \<Longrightarrow> firstAnswer P (taskId t) regions = None"
  by (simp add: onCourse_firstAnswer)

lemma onCourse_onward:
  assumes "onCourse P regions t" and "lookupResult P (probing t) (taskId t) = None"
    and "remaining t = reg # rest"
  shows "onCourse P regions (t\<lparr>probing := reg, remaining := rest\<rparr>)"
proof -
  from assms(1) obtain pre where pre: "regions = pre @ probing t # remaining t"
    and miss: "list_all (\<lambda>q. lookupResult P q (taskId t) = None) pre"
    by (auto simp: onCourse_def)
  have "regions = (pre @ [probing t]) @ reg # rest" using pre assms(3) by simp
  moreover have "list_all (\<lambda>q. lookupResult P q (taskId t) = None) (pre @ [probing t])"
    using miss assms(2) by simp
  ultimately show ?thesis unfolding onCourse_def by (intro exI [of _ "pre @ [probing t]"]) simp
qed

lemma classify_record:
  assumes "monitoredData s appId = Some r"
  shows "monitoredData (classify appId info reg s) appId =
         Some (if version r = [] then entryOf info reg
               else if compareVersions (appInfo.version info) (version r) > 0
               then entryOf info reg else r)"
proof (cases "version r = []")
  case True
  with assms have "storedVersion (monitoredData s) appId = None"
    by (simp add: storedVersion_None_iff)
  from classify_first [OF this] True show ?thesis by simp
next
  case False
  from assms False have "storedVersion (monitoredData s) appId = Some (version r)"
    by (rule storedVersion_Some)
  from classify_stored [OF this] False assms show ?thesis by simp
qed

lemma classify_recordAfter:
  assumes "monitoredData s appId = Some r"
    and "firstAnswer P appId regions = Some (info, reg)"
  shows "monitoredData (classify appId info reg s) appId = Some (recordAfter P regions appId r)"
  by (simp add: classify_record [OF assms(1)] recordAfter_def assms(2))

lemma recordAfter_idem:
  "recordAfter P regions appId (recordAfter P regions appId r) = recordAfter P regions appId r"
  by (auto simp: recordAfter_def entryOf_def compareVersions_refl split: option.splits)

lemma recordAfter_none:
  "firstAnswer P appId regions = None \<Longrightarrow> recordAfter P regions appId r = r"
  by (simp add: recordAfter_def)

section \<open>The record of a tracked id, step by step\<close>

lemma resume_record_other:
  "taskId t \<noteq> appId \<Longrightarrow>
   monitoredData (fst (resume P regions t s)) appId = monitoredData s appId"
  by (cases rule: resume_cases [of P t regions s]) (simp_all add: monitoredData_classify_other)

lemma resume_record_same:
  assumes "onCourse P regions t" and "taskId t = appId"
    and "monitoredData s appId = Some r \<or> monitoredData s appId = Some (recordAfter P regions appId r)"
  shows "(snd (resume P regions t s) = None \<longrightarrow>
            monitoredData (fst (resume P regions t s)) appId = Some (recordAfter P regions appId r)) \<and>
         (snd (resume P regions t s) \<noteq> None \<longrightarrow>
            monitoredData (fst (resume P regions t s)) appId = monitoredData s appId)"
proof (cases rule: resume_cases [of P t regions s])
  case (answer info)
  from onCourse_answer [OF assms(1) answer(1)] assms(2)
  have f: "firstAnswer P appId regions = Some (info, probing t)" by simp
  from assms(3) show ?thesis
  proof
    assume "monitoredData s appId = Some r"
    from classify_recordAfter [OF this f] show ?thesis by (simp add: answer(2) assms(2))
  next
    assume "monitoredData s appId = Some (recordAfter P regions appId r)"
    from classify_recordAfter [OF this f] show ?thesis
      by (simp add: answer(2) assms(2) recordAfter_idem)
  qed
next
  case exhausted
  from onCourse_exhausted [OF assms(1) exhausted(1,2)] assms(2)
  have "recordAfter P regions appId r = r" by (simp add: recordAfter_none)
  with assms(3) show ?thesis by (simp add: exhausted(3))
next
  case (onward reg rest)
  then show ?thesis by simp
qed

lemma settle_record:
  assumes "\<forall>t\<in>set pending. onCourse P regions t"
    and "monitoredData s appId = Some (recordAfter P regions appId r) \<or>
         (monitoredData s appId = Some r \<and> (\<exists>t\<in>set pending. taskId t = appId))"
  shows "monitoredData (settle P regions n pending s) appId = Some (recordAfter P regions appId r)"
proof -
  let ?I = "\<lambda>pending (s :: state). (\<forall>t\<in>set pending. onCourse P regions t) \<and>
      (monitoredData s appId = Some (recordAfter P regions appId r) \<or>
       (monitoredData s appId = Some r \<and> (\<exists>t\<in>set pending. taskId t = appId)))"
  have "?I [] (settle P regions n pending s)"
  proof (rule settle_invariant [where I = ?I])
    show "?I pending s" using assms by simp
  next
    fix pending :: "task list" and s :: state and k :: nat
    assume I: "?I pending s" and k: "k < length pending"
    let ?t = "pending ! k"
    let ?st = "resume P regions ?t s"
    from k have mem: "?t \<in> set pending" by simp
    with I have oc: "onCourse P regions ?t" by simp
    have course: "\<forall>u\<in>set (afterStep pending k (snd ?st)). onCourse P regions u"
    proof (cases rule: resume_cases [of P ?t regions s])
      case (answer info)
      with I set_afterStep_None(1) [OF k] show ?thesis by auto
    next
      case exhausted
      with I set_afterStep_None(1) [OF k] show ?thesis by auto
    next
      case (onward reg rest)
      from onCourse_onward [OF oc onward(1,2)] I set_afterStep_Some(1) [OF k]
      show ?thesis by (auto simp: onward(3))
    qed
    have rec: "monitoredData (fst ?st) appId = Some (recordAfter P regions appId r) \<or>
       (monitoredData (fst ?st) appId = Some r \<and>
        (\<exists>u\<in>set (afterStep pending k (snd ?st)). taskId u = appId))"
    proof (cases "taskId ?t = appId")
      case True
      from I have "monitoredData s appId = Some r \<or>
          monitoredData s appId = Some (recordAfter P regions appId r)" by auto
      note same = resume_record_same [OF oc True this]
      show ?thesis
      proof (cases "snd ?st")
        case None
        with same show ?thesis by simp
      next
        case (Some u)
        with same have keep: "monitoredData (fst ?st) appId = monitoredData s appId" by simp
        have "taskId u = appId"
          using Some True by (cases rule: resume_cases [of P ?t regions s]) auto
        with set_afterStep_Some(2) [OF k, of u] Some
        have "\<exists>u\<in>set (afterStep pending k (snd ?st)). taskId u = appId" by auto
        with I keep show ?thesis by auto
      qed
    next
      case False
      from resume_record_other [OF False]
      have keep: "monitoredData (fst ?st) appId = monitoredData s appId" .
      show ?thesis
      proof (cases "monitoredData s appId = Some (recordAfter P regions appId r)")
        case True
        with keep show ?thesis by simp
      next
        case no: False
        with I obtain t0 where t0: "t0 \<in> set pending" "taskId t0 = appId"
          and r: "monitoredData s appId = Some r" by auto
        from t0 False have "t0 \<noteq> ?t" by auto
        moreover have "set pending \<subseteq> insert ?t (set (afterStep pending k (snd ?st)))"
          using set_afterStep_None(2) [OF k] set_afterStep_Some(3) [OF k]
          by (cases "snd ?st") auto
        ultimately have "t0 \<in> set (afterStep pending k (snd ?st))" using t0(1) by auto
        with t0(2) r keep show ?thesis by auto
      qed
    qed
    from course rec show "?I (afterStep pending k (snd ?st)) (fst ?st)" by simp
  qed
  then show ?thesis by simp
qed

section \<open>First-seen entries, step by step\<close>

lemma classify_keeps:
  "set (initial (logs s)) \<subseteq> set (initial (logs (classify appId info reg s)))"
  "set (posted s) \<subseteq> set (posted (classify appId info reg s))"
  by (auto simp: classify_def Let_def push_initial_def push_updated_def push_noUpdate_def
      split: option.splits)

lemma resume_keeps:
  "set (initial (logs s)) \<subseteq> set (initial (logs (fst (resume P regions t s))))"
  "set (posted s) \<subseteq> set (posted (fst (resume P regions t s)))"
proof -
  show "set (initial (logs s)) \<subseteq> set (initial (logs (fst (resume P regions t s))))"
    using classify_keeps(1) [of s]
    by (cases rule: resume_cases [of P t regions s]) (simp_all add: push_notFound_def)
  show "set (posted s) \<subseteq> set (posted (fst (resume P regions t s)))"
    using classify_keeps(2) [of s]
    by (cases rule: resume_cases [of P t regions s]) simp_all
qed

lemma classify_first_seen:
  assumes "monitoredData s appId = None"
  shows "LogInitial reg (trackName info) appId (appInfo.version info)
           \<in> set (initial (logs (classify appId info reg s)))"
    and "compose appId info reg None \<in> set (posted (classify appId info reg s))"
proof -
  have "storedVersion (monitoredData s) appId = None"
    using assms by (simp add: storedVersion_None_iff)
  note c = classify_first [OF this, where info = info and reg = reg]
  show "LogInitial reg (trackName info) appId (appInfo.version info)
           \<in> set (initial (logs (classify appId info reg s)))"
    by (simp add: c push_initial_def)
  show "compose appId info reg None \<in> set (posted (classify appId info reg s))"
    by (simp add: c)
qed

lemma settle_first_seen:
  assumes "\<forall>t\<in>set pending. onCourse P regions t"
    and "firstAnswer P appId regions = Some (info, reg)"
    and "(LogInitial reg (trackName info) appId (appInfo.version info) \<in> set (initial (logs s)) \<and>
          compose appId info reg None \<in> set (posted s)) \<or>
         (monitoredData s appId = None \<and> (\<exists>t\<in>set pending. taskId t = appId))"
  shows "LogInitial reg (trackName info) appId (appInfo.version info)
           \<in> set (initial (logs (settle P regions n pending s))) \<and>
         compose appId info reg None \<in> set (posted (settle P regions n pending s))"
proof -
  let ?E = "LogInitial reg (trackName info) appId (appInfo.version info)"
  let ?N = "compose appId info reg None"
  let ?I = "\<lambda>pending (s :: state). (\<forall>t\<in>set pending. onCourse P regions t) \<and>
      ((?E \<in> set (initial (logs s)) \<and> ?N \<in> set (posted s)) \<or>
       (monitoredData s appId = None \<and> (\<exists>t\<in>set pending. taskId t = appId)))"
  have "?I [] (settle P regions n pending s)"
  proof (rule settle_invariant [where I = ?I])
    show "?I pending s" using assms(1,3) by simp
  next
    fix pending :: "task list" and s :: state and k :: nat
    assume I: "?I pending s" and k: "k < length pending"
    let ?t = "pending ! k"
    let ?st = "resume P regions ?t s"
    from k have mem: "?t \<in> set pending" by simp
    with I have oc: "onCourse P regions ?t" by simp
    have course: "\<forall>u\<in>set (afterStep pending k (snd ?st)). onCourse P regions u"
    proof (cases rule: resume_cases [of P ?t regions s])
      case (answer info)
      with I set_afterStep_None(1) [OF k] show ?thesis by auto
    next
      case exhausted
      with I set_afterStep_None(1) [OF k] show ?thesis by auto
    next
      case (onward reg rest)
      from onCourse_onward [OF oc onward(1,2)] I set_afterStep_Some(1) [OF k]
      show ?thesis by (auto simp: onward(3))
    qed
    have seen: "(?E \<in> set (initial (logs (fst ?st))) \<and> ?N \<in> set (posted (fst ?st))) \<or>
       (monitoredData (fst ?st) appId = None \<and>
        (\<exists>u\<in>set (afterStep pending k (snd ?st)). taskId u = appId))"
    proof (cases "?E \<in> set (initial (logs s)) \<and> ?N \<in> set (posted s)")
      case True
      with resume_keeps [of s P regions ?t] show ?thesis by auto
    next
      case False
      with I obtain t0 where t0: "t0 \<in> set pending" "taskId t0 = appId"
        and none: "monitoredData s appId = None" by auto
      show ?thesis
      proof (cases "taskId ?t = appId")
        case same: True
        show ?thesis
        proof (cases rule: resume_cases [of P ?t regions s])
          case (answer info')
          from onCourse_answer [OF oc answer(1)] same assms(2)
          have "info' = info" "probing ?t = reg" by simp_all
          with classify_first_seen [OF none, where info = info and reg = reg] answer(2) same
          show ?thesis by simp
        next
          case exhausted
          from onCourse_exhausted [OF oc exhausted(1,2)] same assms(2)
          show ?thesis by simp
        next
          case (onward reg' rest)
          let ?u = "?t\<lparr>probing := reg', remaining := rest\<rparr>"
          have "?u \<in> set (afterStep pending k (Some ?u))"
            by (rule set_afterStep_Some(2) [OF k])
          moreover have "taskId ?u = appId" using same by simp
          ultimately have "\<exists>u\<in>set (afterStep pending k (snd ?st)). taskId u = appId"
            unfolding onward(3) snd_conv by (rule bexI [rotated])
          with none show ?thesis by (simp add: onward(3))
        qed
      next
        case other: False
        from resume_record_other [OF other]
        have keep: "monitoredData (fst ?st) appId = None" using none by simp
        from t0 other have "t0 \<noteq> ?t" by auto
        moreover have "set pending \<subseteq> insert ?t (set (afterStep pending k (snd ?st)))"
          using set_afterStep_None(2) [OF k] set_afterStep_Some(3) [OF k]
          by (cases "snd ?st") auto
        ultimately have "t0 \<in> set (afterStep pending k (snd ?st))" using t0(1) by auto
        with t0(2) keep show ?thesis by auto
      qed
    qed
    from course seen show "?I (afterStep pending k (snd ?st)) (fst ?st)" by simp
  qed
  then show ?thesis by simp
qed

section \<open>Entries and requests, step by step\<close>

lemma logCount_classify:
  "logCount (logs (classify appId info reg s)) = Suc (logCount (logs s))"
  by (simp add: classify_def Let_def logCount_def push_initial_def push_updated_def
      push_noUpdate_def split: option.splits)

lemma logCount_push_notFound:
  "logCount (logs (push_notFound e s)) = Suc (logCount (logs s))"
  by (simp add: logCount_def push_notFound_def)

lemma settle_logCount:
  "logCount (logs (settle P regions n pending s)) = logCount (logs s) + length pending"
proof -
  let ?I = "\<lambda>(pending' :: task list) (s' :: state).
      logCount (logs s') + length pending' = logCount (logs s) + length pending"
  have "?I [] (settle P regions n pending s)"
  proof (rule settle_invariant [where I = ?I])
    show "?I pending s" by simp
  next
    fix pending' :: "task list" and s' :: state and k :: nat
    assume I: "?I pending' s'" and k: "k < length pending'"
    from length_afterStep [OF k, of "snd (resume P regions (pending' ! k) s')"] I
    show "?I (afterStep pending' k (snd (resume P regions (pending' ! k) s')))
            (fst (resume P regions (pending' ! k) s'))"
      by (cases rule: resume_cases [of P "pending' ! k" regions s'])
        (simp_all add: logCount_classify logCount_push_notFound)
  qed
  then show ?thesis by simp
qed

lemma settle_requests:
  "mset (requests (settle P regions n pending s)) =
   mset (requests s) + mset (concat (map (laterUrls P) pending))"
proof -
  let ?I = "\<lambda>pending' (s' :: state).
      mset (requests s') + mset (concat (map (laterUrls P) pending')) =
      mset (requests s) + mset (concat (map (laterUrls P) pending))"
  have "?I [] (settle P regions n pending s)"
  proof (rule settle_invariant [where I = ?I])
    show "?I pending s" by simp
  next
    fix pending' :: "task list" and s' :: state and k :: nat
    assume I: "?I pending' s'" and k: "k < length pending'"
    let ?t = "pending' ! k"
    note c = concat_afterStep [OF k, of "laterUrls P" "snd (resume P regions ?t s')"]
    show "?I (afterStep pending' k (snd (resume P regions ?t s')))
            (fst (resume P regions ?t s'))"
    proof (cases rule: resume_cases [of P ?t regions s'])
      case (answer info)
      then have "laterUrls P ?t = []" by (simp add: laterUrls_def)
      with c I answer show ?thesis by simp
    next
      case exhausted
      then have "laterUrls P ?t = []" by (simp add: laterUrls_def)
      with c I exhausted show ?thesis by simp
    next
      case (onward reg rest)
      let ?u = "?t\<lparr>probing := reg, remaining := rest\<rparr>"
      from onward have "laterUrls P ?t = lookupUrl reg (taskId ?t) # laterUrls P ?u"
        by (simp add: laterUrls_def split: option.splits)
      with c onward(3)
      have e: "add_mset (lookupUrl reg (taskId ?t))
                 (mset (concat (map (laterUrls P) (afterStep pending' k (Some ?u))))) =
               mset (concat (map (laterUrls P) pending'))"
        by simp
      have "mset (requests (fst (resume P regions ?t s'))) +
            mset (concat (map (laterUrls P) (afterStep pending' k (snd (resume P regions ?t s'))))) =
            mset (requests s') +
            add_mset (lookupUrl reg (taskId ?t))
              (mset (concat (map (laterUrls P) (afterStep pending' k (Some ?u)))))"
        by (simp add: onward(3))
      also have "\<dots> = mset (requests s') + mset (concat (map (laterUrls P) pending'))"
        by (simp only: e)
      also have "\<dots> = mset (requests s) + mset (concat (map (laterUrls P) pending))"
        by (rule I)
      finally show ?thesis .
    qed
  qed
  then show ?thesis by simp
qed

section \<open>The tasks of a run\<close>

lemma launch_all:
  "foldl (launch (reg # rest)) (s, pending) ids =
     (s\<lparr>requests := requests s @ map (lookupUrl reg) ids\<rparr>,
      pending @ map (\<lambda>a. \<lparr>taskId = a, probing = reg, remaining = rest\<rparr>) ids)"
  by (induction ids arbitrary: s pending) (simp_all add: launch_def)

lemma launch_none:
  "foldl (launch []) (s, pending) ids =
     (foldl (\<lambda>st a. push_notFound (LogNotFound a []) st) s ids, pending)"
  by (induction ids arbitrary: s pending) (simp_all add: launch_def)

lemma runTasks_none:
  "runTasks P [] ids s = foldl (\<lambda>st a. push_notFound (LogNotFound a []) st) s ids"
  by (simp add: runTasks_def launch_none)

lemma runTasks_some:
  "runTasks P (reg # rest) ids s =
     settle P (reg # rest) 0 (map (\<lambda>a. \<lparr>taskId = a, probing = reg, remaining = rest\<rparr>) ids)
       (s\<lparr>requests := requests s @ map (lookupUrl reg) ids\<rparr>)"
  by (simp add: runTasks_def launch_all)

lemma onCourse_launched:
  "onCourse P (reg # rest) \<lparr>taskId = a, probing = reg, remaining = rest\<rparr>"
  unfolding onCourse_def by (intro exI [of _ "[]"]) simp

lemma notFound_fold:
  "monitoredData (foldl (\<lambda>st a. push_notFound (LogNotFound a []) st) s ids) = monitoredData s"
  "requests (foldl (\<lambda>st a. push_notFound (LogNotFound a []) st) s ids) = requests s"
  "logCount (logs (foldl (\<lambda>st a. push_notFound (LogNotFound a []) st) s ids)) =
     logCount (logs s) + length ids"
  by (induction ids arbitrary: s) (simp_all add: logCount_push_notFound)

lemma runTasks_record:
  assumes "monitoredData s appId = Some r" and "appId \<in> set ids"
  shows "monitoredData (runTasks P regions ids s) appId = Some (recordAfter P regions appId r)"
proof (cases regions)
  case Nil
  with assms(1) show ?thesis by (simp add: runTasks_none notFound_fold recordAfter_def)
next
  case (Cons reg rest)
  let ?pending = "map (\<lambda>a. \<lparr>taskId = a, probing = reg, remaining = rest\<rparr>) ids"
  have "\<forall>t\<in>set ?pending. onCourse P (reg # rest) t" by (auto simp: onCourse_launched)
  moreover have "\<exists>t\<in>set ?pending. taskId t = appId" using assms(2) by auto
  ultimately show ?thesis
    using assms(1) by (simp add: Cons runTasks_some settle_record)
qed

lemma runTasks_first_seen:
  assumes "monitoredData s appId = None" and "appId \<in> set ids"
    and "firstAnswer P appId regions = Some (info, reg)"
  shows "LogInitial reg (trackName info) appId (appInfo.version info)
           \<in> set (initial (logs (runTasks P regions ids s))) \<and>
         compose appId info reg None \<in> set (posted (runTasks P regions ids s))"
proof (cases regions)
  case Nil
  with assms(3) show ?thesis by simp
next
  case (Cons r0 rest)
  let ?pending = "map (\<lambda>a. \<lparr>taskId = a, probing = r0, remaining = rest\<rparr>) ids"
  let ?s = "s\<lparr>requests := requests s @ map (lookupUrl r0) ids\<rparr>"
  have "\<forall>t\<in>set ?pending. onCourse P (r0 # rest) t" by (auto simp: onCourse_launched)
  moreover have "monitoredData ?s appId = None \<and> (\<exists>t\<in>set ?pending. taskId t = appId)"
    using assms(1,2) by auto
  ultimately show ?thesis
    using assms(3) settle_first_seen [of ?pending P "r0 # rest" appId info reg ?s 0]
    by (simp add: Cons runTasks_some)
qed

lemma runTasks_logCount:
  "logCount (logs (runTasks P regions ids s)) = logCount (logs s) + length ids"
  by (cases regions) (simp_all add: runTasks_none runTasks_some notFound_fold settle_logCount)

lemma probeUrls_launched:
  "mset (map (lookupUrl reg) ids) +
   mset (concat (map (laterUrls P) (map (\<lambda>a. \<lparr>taskId = a, probing = reg, remaining = rest\<rparr>) ids))) =
   mset (concat (map (probeUrls P (reg # rest)) ids))"
  by (induction ids) (simp_all add: probeUrls_def laterUrls_def split: option.splits)

lemma runTasks_requests:
  "mset (requests (runTasks P regions ids s)) =
   mset (requests s) + mset (concat (map (probeUrls P regions) ids))"
proof (cases regions)
  case Nil
  then show ?thesis by (simp add: runTasks_none notFound_fold probeUrls_def)
next
  case (Cons reg rest)
  show ?thesis
    by (simp add: Cons runTasks_some settle_requests probeUrls_launched [symmetric])
qed

text \<open>
  A run with one task does what \<open>checkAppUpdate\<close> does: the steps of a task, taken one
  after the other, are the loop and the classification of \<open>checkAppUpdate\<close>.
\<close>

lemma settle_single:
  "settle P regions n [t] s =
     (case firstAnswer P (taskId t) (probing t # remaining t) of
        None \<Rightarrow> push_notFound (LogNotFound (taskId t) regions)
                  (s\<lparr>requests := requests s @ laterUrls P t\<rparr>)
      | Some (info, reg) \<Rightarrow>
          classify (taskId t) info reg (s\<lparr>requests := requests s @ laterUrls P t\<rparr>))"
proof (induction "remaining t" arbitrary: t n s)
  case Nil
  show ?case
    by (cases rule: resume_cases [of P t regions s])
      (simp_all add: settle_step afterStep_def laterUrls_def Nil [symmetric])
next
  case (Cons reg rest)
  show ?case
  proof (cases rule: resume_cases [of P t regions s])
    case (answer info)
    then show ?thesis by (simp add: settle_step afterStep_def laterUrls_def)
  next
    case exhausted
    with Cons.hyps(2) show ?thesis by simp
  next
    case (onward reg' rest')
    with Cons.hyps(2) have eq: "reg' = reg" "rest' = rest" by simp_all
    let ?u = "t\<lparr>probing := reg, remaining := rest\<rparr>"
    have "rest = remaining ?u" by simp
    note ih = Cons.hyps(1) [OF this]
    show ?thesis
      using onward eq
      by (simp add: settle_step afterStep_def ih laterUrls_def split: option.splits)
  qed
qed

lemma runTasks_single: "runTasks P regions [appId] s = checkAppUpdate P appId regions s"
proof (cases regions)
  case Nil
  then show ?thesis by (simp add: runTasks_none checkAppUpdate_eq probeUrls_def)
next
  case (Cons reg rest)
  show ?thesis
    by (simp add: Cons runTasks_some settle_single checkAppUpdate_eq probeUrls_def laterUrls_def
        split: option.splits)
qed

section \<open>The record of a tracked id over a run\<close>

lemma monitoredData_main_active:
  assumes "newIdsOf (store s APP_IDS_KEY) \<noteq> []"
  shows "monitoredData (main P s) = monitoredData (tasksDone P s)"
    and "logs (main P s) = logs (tasksDone P s)"
    and "posted (main P s) = posted (tasksDone P s)"
    and "requests (main P s) = requests (tasksDone P s)"
    and "finished (main P s)"
  by (simp_all add: main_active [OF assms])

lemma main_record:
  assumes "appId \<in> set (newIdsOf (store s APP_IDS_KEY))"
    and "loadMonitored P (store s MONITORED_APPS_KEY) appId = Some r"
  shows "monitoredData (main P s) appId =
         Some (recordAfter P (regionsOf P (store s REGIONS_KEY)) appId r)"
proof -
  from assms(1) have ne: "newIdsOf (store s APP_IDS_KEY) \<noteq> []" by auto
  let ?s1 = "s\<lparr>monitoredData := handleDeletions (newIdsOf (store s APP_IDS_KEY))
                              (loadMonitored P (store s MONITORED_APPS_KEY)),
          logs := emptyLogs\<rparr>"
  have "monitoredData ?s1 appId = Some r"
    using assms by (simp add: handleDeletions_def)
  from runTasks_record [OF this assms(1)] show ?thesis
    by (simp add: monitoredData_main_active(1) [OF ne] tasksDone_def)
qed

text \<open>
  C2 (as amended). For every run and every tracked id that has a stored record when
  the run starts: the record is overwritten with the observation of the run only
  when the stored version is empty or the observed version compares strictly greater
  than the stored version; when the stored version is not empty and the observed
  version compares equal or less, or when no region answers, the record, and with it
  its version, is unchanged.
\<close>

theorem version_overwrite_rule:
  assumes "appId \<in> set (newIdsOf (store s APP_IDS_KEY))"
    and "loadMonitored P (store s MONITORED_APPS_KEY) appId = Some r"
  shows "(\<forall>info reg.
            firstAnswer P appId (regionsOf P (store s REGIONS_KEY)) = Some (info, reg) \<longrightarrow>
            (version r = [] \<or> compareVersions (appInfo.version info) (version r) > 0 \<longrightarrow>
               monitoredData (main P s) appId = Some (entryOf info reg)) \<and>
            (version r \<noteq> [] \<and> compareVersions (appInfo.version info) (version r) \<le> 0 \<longrightarrow>
               monitoredData (main P s) appId = Some r)) \<and>
         (firstAnswer P appId (regionsOf P (store s REGIONS_KEY)) = None \<longrightarrow>
            monitoredData (main P s) appId = Some r)"
  by (auto simp: main_record [OF assms] recordAfter_def)


lemma demo_run:
  "newIdsOf (store (demoState [APP_IDS_KEY \<mapsto> js ''1'', MONITORED_APPS_KEY \<mapsto> js ''T'']) APP_IDS_KEY)
     = [js ''1'']"
  "regionsOf (demoPlatform v old)
     (store (demoState [APP_IDS_KEY \<mapsto> js ''1'', MONITORED_APPS_KEY \<mapsto> js ''T'']) REGIONS_KEY)
     = defaultRegions"
  "loadMonitored (demoPlatform v old)
     (store (demoState [APP_IDS_KEY \<mapsto> js ''1'', MONITORED_APPS_KEY \<mapsto> js ''T'']) MONITORED_APPS_KEY)
     (js ''1'') = Some \<lparr>version = old, region = js ''cn'', name = js ''Demo''\<rparr>"
  "firstAnswer (demoPlatform v old) (js ''1'') defaultRegions = Some (demoInfo v, js ''cn'')"
proof -
  show "newIdsOf (store (demoState [APP_IDS_KEY \<mapsto> js ''1'', MONITORED_APPS_KEY \<mapsto> js ''T'']) APP_IDS_KEY)
     = [js ''1'']"
    by code_simp
  show "regionsOf (demoPlatform v old)
     (store (demoState [APP_IDS_KEY \<mapsto> js ''1'', MONITORED_APPS_KEY \<mapsto> js ''T'']) REGIONS_KEY)
     = defaultRegions"
    by (simp add: regionsOf_def demoState_def truthy_def REGIONS_KEY_def APP_IDS_KEY_def
        MONITORED_APPS_KEY_def js_def)
  show "loadMonitored (demoPlatform v old)
     (store (demoState [APP_IDS_KEY \<mapsto> js ''1'', MONITORED_APPS_KEY \<mapsto> js ''T'']) MONITORED_APPS_KEY)
     (js ''1'') = Some \<lparr>version = old, region = js ''cn'', name = js ''Demo''\<rparr>"
    by (simp add: loadMonitored_def demoState_def truthy_def demoPlatform_def js_def)
  have us: "lookupResult (demoPlatform v old) (js ''us'') (js ''1'') = None"
    by (simp add: lookupResult_def demoPlatform_def lookupUrl_def js_def)
  have cn: "lookupResult (demoPlatform v old) (js ''cn'') (js ''1'') = Some (demoInfo v)"
    by (simp add: lookupResult_def demoPlatform_def)
  show "firstAnswer (demoPlatform v old) (js ''1'') defaultRegions = Some (demoInfo v, js ''cn'')"
    by (simp add: defaultRegions_def us cn)
qed

text \<open>
  The rule as the claim has it fails on a run that starts with a record whose version
  is empty: a prior record exists, the observed version \<open>0\<close> compares equal to the
  stored one, not greater, and the run overwrites the version.
\<close>

theorem version_overwrite_counterexample:
  "js ''1'' \<in> set (newIdsOf (store (demoState [APP_IDS_KEY \<mapsto> js ''1'', MONITORED_APPS_KEY \<mapsto> js ''T'']) APP_IDS_KEY)) \<and>
   loadMonitored (demoPlatform (js ''0'') [])
     (store (demoState [APP_IDS_KEY \<mapsto> js ''1'', MONITORED_APPS_KEY \<mapsto> js ''T'']) MONITORED_APPS_KEY)
     (js ''1'') = Some \<lparr>version = [], region = js ''cn'', name = js ''Demo''\<rparr> \<and>
   compareVersions (js ''0'') [] = 0 \<and>
   monitoredData (main (demoPlatform (js ''0'') [])
       (demoState [APP_IDS_KEY \<mapsto> js ''1'', MONITORED_APPS_KEY \<mapsto> js ''T''])) (js ''1'') =
     Some \<lparr>version = js ''0'', region = js ''cn'', name = js ''Demo''\<rparr>"
proof -
  let ?s = "demoState [APP_IDS_KEY \<mapsto> js ''1'', MONITORED_APPS_KEY \<mapsto> js ''T'']"
  let ?P = "demoPlatform (js ''0'') []"
  have t: "js ''1'' \<in> set (newIdsOf (store ?s APP_IDS_KEY))" by (simp add: demo_run)
  have c: "compareVersions (js ''0'') [] = 0" by code_simp
  from main_record [OF t demo_run(3), of "js ''0''" "[]"]
  have "monitoredData (main ?P ?s) (js ''1'') =
     Some \<lparr>version = js ''0'', region = js ''cn'', name = js ''Demo''\<rparr>"
    by (simp add: demo_run recordAfter_def entryOf_def demoInfo_def)
  with t c demo_run(3) [of "js ''0''" "[]"] show ?thesis by blast
qed

theorem version_overwrite_rule_witness:
  "js ''1'' \<in> set (newIdsOf (store (demoState [APP_IDS_KEY \<mapsto> js ''1'', MONITORED_APPS_KEY \<mapsto> js ''T'']) APP_IDS_KEY)) \<and>
   loadMonitored (demoPlatform (js ''2.0'') (js ''1.0''))
     (store (demoState [APP_IDS_KEY \<mapsto> js ''1'', MONITORED_APPS_KEY \<mapsto> js ''T'']) MONITORED_APPS_KEY)
     (js ''1'') = Some \<lparr>version = js ''1.0'', region = js ''cn'', name = js ''Demo''\<rparr> \<and>
   compareVersions (js ''2.0'') (js ''1.0'') > 0 \<and>
   monitoredData (main (demoPlatform (js ''2.0'') (js ''1.0''))
       (demoState [APP_IDS_KEY \<mapsto> js ''1'', MONITORED_APPS_KEY \<mapsto> js ''T''])) (js ''1'') =
     Some (entryOf (demoInfo (js ''2.0'')) (js ''cn'')) \<and>
   loadMonitored (demoPlatform (js ''1.0'') (js ''1.0''))
     (store (demoState [APP_IDS_KEY \<mapsto> js ''1'', MONITORED_APPS_KEY \<mapsto> js ''T'']) MONITORED_APPS_KEY)
     (js ''1'') = Some \<lparr>version = js ''1.0'', region = js ''cn'', name = js ''Demo''\<rparr> \<and>
   compareVersions (js ''1.0'') (js ''1.0'') \<le> 0 \<and>
   monitoredData (main (demoPlatform (js ''1.0'') (js ''1.0''))
       (demoState [APP_IDS_KEY \<mapsto> js ''1'', MONITORED_APPS_KEY \<mapsto> js ''T''])) (js ''1'') =
     Some \<lparr>version = js ''1.0'', region = js ''cn'', name = js ''Demo''\<rparr>"
proof -
  let ?s = "demoState [APP_IDS_KEY \<mapsto> js ''1'', MONITORED_APPS_KEY \<mapsto> js ''T'']"
  let ?r = "\<lparr>version = js ''1.0'', region = js ''cn'', name = js ''Demo''\<rparr>"
  have t: "js ''1'' \<in> set (newIdsOf (store ?s APP_IDS_KEY))" by (simp add: demo_run)
  have gt: "compareVersions (js ''2.0'') (js ''1.0'') > 0" by code_simp
  have le: "compareVersions (js ''1.0'') (js ''1.0'') \<le> 0" by code_simp
  have ne: "version ?r \<noteq> []" by (simp add: js_def)
  have v: "appInfo.version (demoInfo x) = x" for x by (simp add: demoInfo_def)
  note l2 = demo_run(3) [of "js ''2.0''" "js ''1.0''"]
  note l1 = demo_run(3) [of "js ''1.0''" "js ''1.0''"]
  from version_overwrite_rule [OF t l2] gt
  have a: "monitoredData (main (demoPlatform (js ''2.0'') (js ''1.0'')) ?s) (js ''1'') =
     Some (entryOf (demoInfo (js ''2.0'')) (js ''cn''))"
    by (simp add: demo_run v)
  from version_overwrite_rule [OF t l1] le ne
  have b: "monitoredData (main (demoPlatform (js ''1.0'') (js ''1.0'')) ?s) (js ''1'') = Some ?r"
    by (simp add: demo_run v)
  from t l2 gt a l1 le b show ?thesis by blast
qed

section \<open>A run on a malformed stored state\<close>

text \<open>
  C9. If the stored blob fails to parse when the run starts, the table in memory is
  reset to the empty table and the run proceeds to its end (the tasks run, the table
  is written back, the run terminates); every tracked id whose lookup succeeds in
  that run is classified as first seen: its first-seen entry is logged and its
  "added" notification is posted.
\<close>

theorem malformed_state_first_seen:
  assumes "newIdsOf (store s APP_IDS_KEY) \<noteq> []"
    and "truthy (store s MONITORED_APPS_KEY) = Some blob"
    and "parseMonitored P blob = None"
  shows "loadMonitored P (store s MONITORED_APPS_KEY) = Map.empty \<and>
         finished (main P s) \<and>
         store (main P s) MONITORED_APPS_KEY = Some (stringify P (monitoredData (main P s))) \<and>
         (\<forall>appId\<in>set (newIdsOf (store s APP_IDS_KEY)). \<forall>info reg.
            firstAnswer P appId (regionsOf P (store s REGIONS_KEY)) = Some (info, reg) \<longrightarrow>
            LogInitial reg (trackName info) appId (appInfo.version info)
              \<in> set (initial (logs (main P s))) \<and>
            compose appId info reg None \<in> set (posted (main P s)))"
proof (intro conjI ballI allI impI)
  show e: "loadMonitored P (store s MONITORED_APPS_KEY) = Map.empty"
    using assms(2,3) by (simp add: loadMonitored_def)
  show "finished (main P s)"
    by (rule monitoredData_main_active(5) [OF assms(1)])
  show "store (main P s) MONITORED_APPS_KEY = Some (stringify P (monitoredData (main P s)))"
    by (simp add: main_active [OF assms(1)])
  fix appId info reg
  assume t: "appId \<in> set (newIdsOf (store s APP_IDS_KEY))"
    and f: "firstAnswer P appId (regionsOf P (store s REGIONS_KEY)) = Some (info, reg)"
  let ?s1 = "s\<lparr>monitoredData := handleDeletions (newIdsOf (store s APP_IDS_KEY))
                              (loadMonitored P (store s MONITORED_APPS_KEY)),
          logs := emptyLogs\<rparr>"
  have "monitoredData ?s1 appId = None" by (simp add: e handleDeletions_def)
  from runTasks_first_seen [OF this t f]
  show "LogInitial reg (trackName info) appId (appInfo.version info)
              \<in> set (initial (logs (main P s)))"
    and "compose appId info reg None \<in> set (posted (main P s))"
    by (simp_all add: monitoredData_main_active [OF assms(1)] tasksDone_def)
qed

theorem malformed_state_first_seen_witness:
  "newIdsOf (store (demoState [APP_IDS_KEY \<mapsto> js ''1'', MONITORED_APPS_KEY \<mapsto> js ''{oops''])
      APP_IDS_KEY) = [js ''1''] \<and>
   truthy (store (demoState [APP_IDS_KEY \<mapsto> js ''1'', MONITORED_APPS_KEY \<mapsto> js ''{oops''])
      MONITORED_APPS_KEY) = Some (js ''{oops'') \<and>
   parseMonitored (demoPlatform (js ''2.0'') (js ''1.0'')) (js ''{oops'') = None \<and>
   firstAnswer (demoPlatform (js ''2.0'') (js ''1.0'')) (js ''1'') defaultRegions =
     Some (demoInfo (js ''2.0''), js ''cn'') \<and>
   LogInitial (js ''cn'') (js ''Demo'') (js ''1'') (js ''2.0'')
     \<in> set (initial (logs (main (demoPlatform (js ''2.0'') (js ''1.0''))
          (demoState [APP_IDS_KEY \<mapsto> js ''1'', MONITORED_APPS_KEY \<mapsto> js ''{oops''])))) \<and>
   compose (js ''1'') (demoInfo (js ''2.0'')) (js ''cn'') None
     \<in> set (posted (main (demoPlatform (js ''2.0'') (js ''1.0''))
          (demoState [APP_IDS_KEY \<mapsto> js ''1'', MONITORED_APPS_KEY \<mapsto> js ''{oops''])))"
proof -
  let ?s = "demoState [APP_IDS_KEY \<mapsto> js ''1'', MONITORED_APPS_KEY \<mapsto> js ''{oops'']"
  let ?P = "demoPlatform (js ''2.0'') (js ''1.0'')"
  have n: "newIdsOf (store ?s APP_IDS_KEY) = [js ''1'']" by code_simp
  then have ne: "newIdsOf (store ?s APP_IDS_KEY) \<noteq> []" by simp
  have b: "truthy (store ?s MONITORED_APPS_KEY) = Some (js ''{oops'')" by code_simp
  have p: "parseMonitored ?P (js ''{oops'') = None" by code_simp
  have r: "regionsOf ?P (store ?s REGIONS_KEY) = defaultRegions" by code_simp
  have f: "firstAnswer ?P (js ''1'') defaultRegions = Some (demoInfo (js ''2.0''), js ''cn'')"
    by (rule demo_run(4))
  have v: "appInfo.version (demoInfo x) = x" "trackName (demoInfo x) = js ''Demo''" for x
    by (simp_all add: demoInfo_def)
  from malformed_state_first_seen [OF ne b p] n r f
  have "LogInitial (js ''cn'') (js ''Demo'') (js ''1'') (js ''2.0'')
          \<in> set (initial (logs (main ?P ?s))) \<and>
        compose (js ''1'') (demoInfo (js ''2.0'')) (js ''cn'') None \<in> set (posted (main ?P ?s))"
    by (simp add: v)
  with n b p f show ?thesis by blast
qed

section \<open>One task for each occurrence of an id\<close>

lemma count_list_filter_nonempty:
  "x \<noteq> [] \<Longrightarrow> count_list (filter (\<lambda>y. y \<noteq> []) xs) x = count_list xs x"
  by (induction xs) auto

text \<open>
  C10. The tracked-id list is not deduplicated: an id occurs in the list as often as
  it occurs among the trimmed pieces of the comma-separated configuration. The
  dispatch of a run (lines 94 to 97) starts one task for each element of the list:
  whatever the state at the dispatch, the regions and the order in which the replies
  arrive, the tasks log one entry for each element, and the requests they make are,
  up to their order, the region-probe sequences of the elements, one sequence for
  each occurrence of an id.
\<close>

theorem tasks_per_occurrence:
  assumes "truthy (store s APP_IDS_KEY) = Some ids"
  shows "(\<forall>x. x \<noteq> [] \<longrightarrow>
            count_list (newIdsOf (store s APP_IDS_KEY)) x =
            count_list (map trim (split_str 0x2C ids)) x) \<and>
         logCount (logs (runTasks P regions (newIdsOf (store s APP_IDS_KEY)) s1)) =
           logCount (logs s1) + length (newIdsOf (store s APP_IDS_KEY)) \<and>
         mset (requests (runTasks P regions (newIdsOf (store s APP_IDS_KEY)) s1)) =
           mset (requests s1) +
           mset (concat (map (probeUrls P regions) (newIdsOf (store s APP_IDS_KEY))))"
proof (intro conjI allI impI)
  fix x :: jsstring
  assume "x \<noteq> []"
  then show "count_list (newIdsOf (store s APP_IDS_KEY)) x =
            count_list (map trim (split_str 0x2C ids)) x"
    using assms by (simp add: newIdsOf_def count_list_filter_nonempty)
next
  show "logCount (logs (runTasks P regions (newIdsOf (store s APP_IDS_KEY)) s1)) =
           logCount (logs s1) + length (newIdsOf (store s APP_IDS_KEY))"
    by (rule runTasks_logCount)
next
  show "mset (requests (runTasks P regions (newIdsOf (store s APP_IDS_KEY)) s1)) =
           mset (requests s1) +
           mset (concat (map (probeUrls P regions) (newIdsOf (store s APP_IDS_KEY))))"
    by (rule runTasks_requests)
qed

theorem tasks_per_occurrence_witness:
  "truthy (store (demoState [APP_IDS_KEY \<mapsto> js ''1, 1'']) APP_IDS_KEY) = Some (js ''1, 1'') \<and>
   newIdsOf (store (demoState [APP_IDS_KEY \<mapsto> js ''1, 1'']) APP_IDS_KEY) = [js ''1'', js ''1''] \<and>
   logCount (logs (runTasks (demoPlatform (js ''2.0'') []) defaultRegions [js ''1'', js ''1'']
      (demoState [APP_IDS_KEY \<mapsto> js ''1, 1'']))) = 2 \<and>
   mset (requests (runTasks (demoPlatform (js ''2.0'') []) defaultRegions [js ''1'', js ''1'']
      (demoState [APP_IDS_KEY \<mapsto> js ''1, 1'']))) =
     mset [lookupUrl (js ''us'') (js ''1''), lookupUrl (js ''cn'') (js ''1''),
           lookupUrl (js ''us'') (js ''1''), lookupUrl (js ''cn'') (js ''1'')] \<and>
   requests (main (demoPlatform (js ''2.0'') []) (demoState [APP_IDS_KEY \<mapsto> js ''1, 1''])) =
     [lookupUrl (js ''us'') (js ''1''), lookupUrl (js ''us'') (js ''1''),
      lookupUrl (js ''cn'') (js ''1''), lookupUrl (js ''cn'') (js ''1'')]"
proof -
  let ?s = "demoState [APP_IDS_KEY \<mapsto> js ''1, 1'']"
  let ?P = "demoPlatform (js ''2.0'') []"
  have a: "truthy (store ?s APP_IDS_KEY) = Some (js ''1, 1'')" by code_simp
  have n: "newIdsOf (store ?s APP_IDS_KEY) = [js ''1'', js ''1'']" by code_simp
  have u: "probeUrls ?P defaultRegions (js ''1'') =
     [lookupUrl (js ''us'') (js ''1''), lookupUrl (js ''cn'') (js ''1'')]"
    by code_simp
  have q: "requests ?s = []" "logCount (logs ?s) = 0"
    by (simp_all add: demoState_def logCount_def emptyLogs_def)
  from tasks_per_occurrence [OF a, of ?P defaultRegions ?s]
  have t: "logCount (logs (runTasks ?P defaultRegions [js ''1'', js ''1''] ?s)) = 2 \<and>
        mset (requests (runTasks ?P defaultRegions [js ''1'', js ''1''] ?s)) =
          mset [lookupUrl (js ''us'') (js ''1''), lookupUrl (js ''cn'') (js ''1''),
                lookupUrl (js ''us'') (js ''1''), lookupUrl (js ''cn'') (js ''1'')]"
    by (simp add: n u q)
  have m: "requests (main ?P ?s) =
     [lookupUrl (js ''us'') (js ''1''), lookupUrl (js ''us'') (js ''1''),
      lookupUrl (js ''cn'') (js ''1''), lookupUrl (js ''cn'') (js ''1'')]"
    by code_simp
  from a n t m show ?thesis by blast
qed

end
